theory Spec2Isabelle
  imports Complex_Main
begin

section \<open>Planet delivery: a shallow embedding of planet\_delivery.py\<close>

text \<open>
  The simulation has three kinds of agents: the road network, the planets and the ships.
  Every agent has a \<open>step\<close> method that the scheduler calls once per tick. The
  embedding below follows the Python source function by function.

  Conventions of the embedding:
  \<^item> Python floats are idealised as \<open>real\<close>; a computation whose float result
    would be NaN is a separate outcome (\<open>NotANumber\<close>).
  \<^item> every exception of the source is a value of \<open>py_error\<close>; a function that may
    raise returns \<open>py_error + 'a\<close>.
  \<^item> every call of \<open>random.random\<close>, \<open>random.choice\<close> and \<open>uuid.uuid1\<close> reads
    its result from an explicit argument, so that a theorem about all arguments is a
    theorem about all outcomes of the random source.
  \<^item> a message body \<open>json|f1|f2|...\<close> is kept split: the item snapshot of field 0
    and the list of the decimal fields after it.
\<close>

datatype py_error = KeyError | IndexError | ValueError | AttributeError | NetworkXNoPath
  | NotANumber

definition NEW_ITEM_PROBA :: real where "NEW_ITEM_PROBA = 5 / 100"
definition PROBA_ISSUE_ROAD :: real where "PROBA_ISSUE_ROAD = 5 / 100"
definition WAITING_TIME :: int where "WAITING_TIME = 3"

text \<open>\<open>random.choice(seq)\<close>: raises IndexError on an empty sequence, otherwise returns
  the element at the index the random source picks (any index below the length).\<close>

definition py_choice :: "nat \<Rightarrow> 'a list \<Rightarrow> py_error + 'a" where
  "py_choice k xs = (if xs = [] then Inl IndexError else Inr (xs ! (k mod length xs)))"

subsection \<open>Item\<close>

record item =
  it_a :: real
  it_b :: real
  it_c :: real
  it_x :: real
  it_y :: real
  uid :: int

text \<open>What the random source would return if \<open>Item.__init__\<close> asked it: three
  results of \<open>random.random()\<close> and one of \<open>uuid.uuid1()\<close>.\<close>

record item_rand =
  ra :: real
  rb :: real
  rc :: real
  ruid :: int

text \<open>Python's \<open>not v\<close> on an optional number: true for \<open>None\<close> and for zero.\<close>

definition py_not :: "'a::zero option \<Rightarrow> bool" where
  "py_not v = (case v of None \<Rightarrow> True | Some n \<Rightarrow> n = 0)"

definition Item_init ::
  "real \<Rightarrow> real \<Rightarrow> real option \<Rightarrow> real option \<Rightarrow> real option \<Rightarrow> int option \<Rightarrow> item_rand \<Rightarrow> item"
where
  "Item_init x y a b c u r =
     \<lparr> it_a = (if py_not a then ra r else the a),
       it_b = (if py_not b then rb r else the b),
       it_c = (if py_not c then rc r else the c),
       it_x = x,
       it_y = y,
       uid = (if py_not u then ruid r else the u) \<rparr>"

text \<open>\<open>Item.from_json\<close>: the JSON object of a snapshot has all six keys, so it is an
  \<open>item\<close> record; every attribute is passed on to the constructor as supplied.\<close>

definition from_json :: "item \<Rightarrow> item_rand \<Rightarrow> item" where
  "from_json j r =
     Item_init (it_x j) (it_y j) (Some (it_a j)) (Some (it_b j)) (Some (it_c j)) (Some (uid j)) r"

text \<open>\<open>Item.__eq__\<close>: equality of items is equality of their unique ids.\<close>

definition item_eq :: "item \<Rightarrow> item \<Rightarrow> bool" where
  "item_eq i j = (uid i = uid j)"

subsection \<open>Planets as seen by other agents, and messages\<close>

text \<open>A planet object as ships and the road network hold it: an identity (distinct
  planets are distinct objects; \<open>==\<close> on agents is identity) and a fixed position.\<close>

record planet =
  pid :: nat
  px :: real
  py :: real

text \<open>A message: recipient, sender, the body split at \<open>|\<close> (field 0 is the JSON
  snapshot of an item, the other fields are decimals) and the two metadata entries.
  The thread string is built with \<open>str(item)\<close>, the address of an object, and is
  left out.\<close>

record message =
  m_to :: string
  m_sender :: string
  m_item :: item
  m_fields :: "real list"
  performative :: string
  turn :: int

text \<open>\<open>float(m.body.split('|')[k])\<close> for \<open>k \<ge> 1\<close>: IndexError when the body has
  no such field.\<close>

definition body_field :: "message \<Rightarrow> nat \<Rightarrow> py_error + real" where
  "body_field m k =
     (if 1 \<le> k \<and> k \<le> length (m_fields m) then Inr (m_fields m ! (k - 1)) else Inl IndexError)"

subsection \<open>Ship\<close>

record ship =
  s_jid :: string
  preference_a :: real
  preference_b :: real
  preference_c :: real
  s_planets :: "planet list"
  s_x :: real
  s_y :: real
  max_speed :: real
  destination :: "planet option"
  potential_destination :: "planet option"
  waypoint :: "planet option"
  previous_point :: planet
  s_item :: "item option"
  s_waiting_for_proposal :: bool

text \<open>\<open>Ship.utility\<close>.\<close>

definition utility :: "ship \<Rightarrow> item \<Rightarrow> real" where
  "utility s i = it_a i * preference_a s + it_b i * preference_b s + it_c i * preference_c s"

text \<open>\<open>np.linalg.norm\<close> of a pair.\<close>

definition norm2 :: "real \<times> real \<Rightarrow> real" where
  "norm2 p = sqrt ((fst p)\<^sup>2 + (snd p)\<^sup>2)"

text \<open>\<open>Ship.move_to\<close>: the new position. The step is the shorter of the full-speed
  step and the remaining vector (\<open>min\<close> with a key keeps its first argument unless the
  second is strictly smaller). At distance zero the source divides zero by zero, which
  numpy evaluates to NaN without raising.\<close>

definition move_to :: "ship \<Rightarrow> planet \<Rightarrow> real \<Rightarrow> py_error + (real \<times> real)" where
  "move_to s dest speed =
     (let dx = px dest - s_x s; dy = py dest - s_y s; n = norm2 (dx, dy) in
      if n = 0 then Inl NotANumber
      else
        let full = (speed * dx / n, speed * dy / n);
            movement = (if norm2 (dx, dy) < norm2 full then (dx, dy) else full)
        in Inr (s_x s + fst movement, s_y s + snd movement))"

text \<open>\<open>list.remove\<close> on \<open>model.items\<close>: deletes the first element equal to the
  argument (\<open>Item.__eq__\<close>), ValueError when there is none.\<close>

fun items_remove :: "item \<Rightarrow> item list \<Rightarrow> py_error + item list" where
  "items_remove i [] = Inl ValueError"
| "items_remove i (j # js) =
     (if item_eq j i then Inr js
      else case items_remove i js of Inl e \<Rightarrow> Inl e | Inr js' \<Rightarrow> Inr (j # js'))"

text \<open>The part of the model a ship's movement reads and writes: \<open>model.items\<close> and
  \<open>model.computed_items_nb\<close>.\<close>

record world =
  items :: "item list"
  computed_items_nb :: nat

text \<open>The movement half of \<open>Ship.step\<close> (up to the delivery test). The parameter
  \<open>route p d\<close> stands for \<open>nx.dijkstra_path(current_graph, p, d, 'distance')[1]\<close>, a
  library call, and \<open>sm\<close> is \<open>environment.speed_modificator\<close>. A ship with a
  waypoint and no item raises AttributeError at \<open>self.item.x = self.x\<close>; a waypoint
  other than the destination (also when there is no destination) asks for the next
  hop.\<close>

definition ship_move ::
  "(planet \<Rightarrow> planet option \<Rightarrow> py_error + planet) \<Rightarrow> (planet \<times> planet \<rightharpoonup> real) \<Rightarrow>
   ship \<Rightarrow> world \<Rightarrow> py_error + (ship \<times> world)"
where
  "ship_move route sm s w =
     (case (if waypoint s = None \<and> destination s \<noteq> None
            then (case route (previous_point s) (destination s) of
                    Inl e \<Rightarrow> Inl e
                  | Inr p \<Rightarrow> Inr (s\<lparr>waypoint := Some p\<rparr>))
            else Inr s) of
        Inl e \<Rightarrow> Inl e
      | Inr s1 \<Rightarrow>
          (case waypoint s1 of
             None \<Rightarrow> Inr (s1, w)
           | Some wp \<Rightarrow>
               (case sm (previous_point s1, wp) of
                  None \<Rightarrow> Inl KeyError
                | Some f \<Rightarrow>
                    (case move_to s1 wp (max_speed s1 * f) of
                       Inl e \<Rightarrow> Inl e
                     | Inr (x, y) \<Rightarrow>
                         (case s_item s1 of
                            None \<Rightarrow> Inl AttributeError
                          | Some it \<Rightarrow>
                              let it' = it\<lparr>it_x := x, it_y := y\<rparr>;
                                  s2 = s1\<lparr>s_x := x, s_y := y, s_item := Some it'\<rparr>
                              in
                                if (x, y) = (px wp, py wp) then
                                  let s3 = s2\<lparr>previous_point := wp\<rparr> in
                                  if Some wp = destination s3 then
                                    (case items_remove it' (items w) of
                                       Inl e \<Rightarrow> Inl e
                                     | Inr js \<Rightarrow>
                                         Inr (s3\<lparr>waypoint := None, destination := None,
                                                 s_item := None\<rparr>,
                                              w\<lparr>items := js,
                                                computed_items_nb := computed_items_nb w + 1\<rparr>))
                                  else
                                    (case route (previous_point s3) (destination s3) of
                                       Inl e \<Rightarrow> Inl e
                                     | Inr p \<Rightarrow> Inr (s3\<lparr>waypoint := Some p\<rparr>, w))
                                else Inr (s2, w))))))"

text \<open>The planet a call for proposals names as destination:
  \<open>[planet for planet in self.planets if planet.x == X and planet.y == Y].pop()\<close>,
  the last match, IndexError when there is none.\<close>

definition planet_at :: "planet list \<Rightarrow> real \<Rightarrow> real \<Rightarrow> py_error + planet" where
  "planet_at ps x y =
     (case filter (\<lambda>p. px p = x \<and> py p = y) ps of
        [] \<Rightarrow> Inl IndexError
      | q # qs \<Rightarrow> Inr (last (q # qs)))"

text \<open>One iteration of the message loop of \<open>Ship.step\<close>: the three \<open>if\<close> statements
  in the source's order, each reading the state the one before it left. The result is
  the new state and the messages sent. \<open>steps\<close> is \<open>model.schedule.steps\<close>, \<open>r\<close>
  the random source of \<open>Item.from_json\<close>.\<close>

definition on_cfp :: "int \<Rightarrow> item_rand \<Rightarrow> message \<Rightarrow> ship \<Rightarrow> py_error + (ship \<times> message list)" where
  "on_cfp steps r m s =
     (if s_item s = None \<and> performative m = ''call_for_proposal''
         \<and> s_waiting_for_proposal s = False
      then
        let proposedItem = from_json (m_item m) r in
        (case body_field m 1 of
           Inl e \<Rightarrow> Inl e
         | Inr proposedItemX \<Rightarrow>
             (case body_field m 2 of
                Inl e \<Rightarrow> Inl e
              | Inr proposedItemY \<Rightarrow>
                  let proposedUtility = utility s proposedItem in
                  (case planet_at (s_planets s) proposedItemX proposedItemY of
                     Inl e \<Rightarrow> Inl e
                   | Inr p \<Rightarrow>
                       Inr (s\<lparr>potential_destination := Some p,
                              s_waiting_for_proposal := True\<rparr>,
                            [\<lparr> m_to = m_sender m, m_sender = m_to m,
                               m_item = proposedItem,
                               m_fields = [proposedItemX, proposedItemY, proposedUtility],
                               performative = ''proposal'', turn = steps \<rparr>]))))
      else Inr (s, []))"

definition on_reject :: "message \<Rightarrow> ship \<Rightarrow> ship" where
  "on_reject m s =
     (if s_item s = None \<and> performative m = ''reject_proposal''
         \<and> s_waiting_for_proposal s = True
      then s\<lparr>s_waiting_for_proposal := False, potential_destination := None\<rparr>
      else s)"

definition on_accept :: "item_rand \<Rightarrow> message \<Rightarrow> ship \<Rightarrow> ship" where
  "on_accept r m s =
     (if s_item s = None \<and> performative m = ''accept_proposal''
         \<and> s_waiting_for_proposal s = True
      then s\<lparr>s_item := Some (from_json (m_item m) r),
             destination := potential_destination s,
             potential_destination := None,
             s_waiting_for_proposal := False\<rparr>
      else s)"

definition handle_message ::
  "int \<Rightarrow> item_rand \<Rightarrow> message \<Rightarrow> ship \<Rightarrow> py_error + (ship \<times> message list)"
where
  "handle_message steps r m s =
     (case on_cfp steps r m s of
        Inl e \<Rightarrow> Inl e
      | Inr (s1, out) \<Rightarrow> Inr (on_accept r m (on_reject m s1), out))"

text \<open>The loop over the drained batch; \<open>rs k\<close> is the random source for the message
  at position \<open>k\<close> of the batch.\<close>

fun ship_messages ::
  "int \<Rightarrow> (nat \<Rightarrow> item_rand) \<Rightarrow> nat \<Rightarrow> message list \<Rightarrow> ship \<Rightarrow> py_error + (ship \<times> message list)"
where
  "ship_messages steps rs k [] s = Inr (s, [])"
| "ship_messages steps rs k (m # ms) s =
     (case handle_message steps (rs k) m s of
        Inl e \<Rightarrow> Inl e
      | Inr (s1, out1) \<Rightarrow>
          (case ship_messages steps rs (Suc k) ms s1 of
             Inl e \<Rightarrow> Inl e
           | Inr (s2, out2) \<Rightarrow> Inr (s2, out1 @ out2)))"

text \<open>\<open>Ship.step\<close>: move, then drain the mailbox and handle every message.\<close>

definition Ship_step ::
  "(planet \<Rightarrow> planet option \<Rightarrow> py_error + planet) \<Rightarrow> (planet \<times> planet \<rightharpoonup> real) \<Rightarrow> int \<Rightarrow>
   (nat \<Rightarrow> item_rand) \<Rightarrow> message list \<Rightarrow> ship \<Rightarrow> world \<Rightarrow>
   py_error + (ship \<times> world \<times> message list)"
where
  "Ship_step route sm steps rs msg_box s w =
     (case ship_move route sm s w of
        Inl e \<Rightarrow> Inl e
      | Inr (s1, w1) \<Rightarrow>
          (case ship_messages steps rs 0 msg_box s1 of
             Inl e \<Rightarrow> Inl e
           | Inr (s2, out) \<Rightarrow> Inr (s2, w1, out)))"

text \<open>The two performatives with which a planet answers a bid.\<close>

definition is_answer :: "message \<Rightarrow> bool" where
  "is_answer m \<longleftrightarrow> performative m = ''accept_proposal'' \<or> performative m = ''reject_proposal''"

subsection \<open>PlanetManager\<close>

text \<open>The dictionaries keyed by \<open>Item\<close> hash and compare their keys by unique id.
  \<open>items_to_ship\<close> is iterated, so it keeps its keys and their insertion order;
  \<open>start_times\<close> and \<open>proposals\<close> are only looked up, so they are maps on the id.\<close>

record planet_manager =
  p_jid :: string
  p_x :: real
  p_y :: real
  items_to_ship :: "(item \<times> planet) list"
  p_waiting_for_proposal :: "item list"
  start_times :: "int \<rightharpoonup> int"
  proposals :: "int \<rightharpoonup> message list"
  p_planets :: "planet list"

text \<open>\<open>d[k] = v\<close> on an insertion-ordered dictionary: an equal key keeps its place
  (and its key object), a new key goes last.\<close>

fun dict_set :: "(item \<times> 'v) list \<Rightarrow> item \<Rightarrow> 'v \<Rightarrow> (item \<times> 'v) list" where
  "dict_set [] k v = [(k, v)]"
| "dict_set ((k', v') # d) k v =
     (if item_eq k' k then (k', v) # d else (k', v') # dict_set d k v)"

text \<open>\<open>d[k]\<close> on the same dictionary: the value of the first key equal to \<open>k\<close>,
  \<open>None\<close> where Python raises KeyError.\<close>

fun dict_get :: "(item \<times> 'v) list \<Rightarrow> item \<Rightarrow> 'v option" where
  "dict_get [] k = None"
| "dict_get ((k', v) # d) k = (if item_eq k' k then Some v else dict_get d k)"

text \<open>What one \<open>PlanetManager.step\<close> reads from the random source: the draw of the
  new-item test, the values for the new item, the index \<open>random.choice\<close> picks for its
  destination, the values \<open>Item.from_json\<close> may ask for at message \<open>k\<close> of the batch,
  and the index \<open>random.choice\<close> picks when the round at position \<open>l\<close> of the waiting
  list is re-queued.\<close>

record planet_rand =
  r_new :: real
  r_item :: item_rand
  r_dest :: nat
  r_json :: "nat \<Rightarrow> item_rand"
  r_requeue :: "nat \<Rightarrow> nat"

definition spawn ::
  "planet_rand \<Rightarrow> planet_manager \<Rightarrow> world \<Rightarrow> py_error + (planet_manager \<times> world)"
where
  "spawn r pm w =
     (if r_new r < NEW_ITEM_PROBA then
        let it = Item_init (p_x pm) (p_y pm) None None None None (r_item r) in
        (case py_choice (r_dest r) (p_planets pm) of
           Inl e \<Rightarrow> Inl e
         | Inr d \<Rightarrow>
             Inr (pm\<lparr>items_to_ship := dict_set (items_to_ship pm) it d\<rparr>,
                  w\<lparr>items := items w @ [it]\<rparr>))
      else Inr (pm, w))"

text \<open>The calls for proposals for one item: one message per ship at the planet's
  position.\<close>

definition cfps ::
  "int \<Rightarrow> planet_manager \<Rightarrow> ship list \<Rightarrow> item \<Rightarrow> planet \<Rightarrow> message list"
where
  "cfps steps pm ships it d =
     map (\<lambda>a. \<lparr> m_to = s_jid a, m_sender = p_jid pm, m_item = it,
                m_fields = [px d, py d],
                performative = ''call_for_proposal'', turn = steps \<rparr>)
         (filter (\<lambda>a. s_x a = p_x pm \<and> s_y a = p_y pm) ships)"

text \<open>The loop over \<open>items_to_ship\<close>: send the calls, open the round.\<close>

fun solicit ::
  "int \<Rightarrow> ship list \<Rightarrow> (item \<times> planet) list \<Rightarrow> planet_manager \<Rightarrow> planet_manager \<times> message list"
where
  "solicit steps ships [] pm = (pm, [])"
| "solicit steps ships ((it, d) # rest) pm =
     (let pm1 = pm\<lparr> start_times := (start_times pm)(uid it \<mapsto> steps),
                     proposals := (proposals pm)(uid it \<mapsto> []),
                     p_waiting_for_proposal := p_waiting_for_proposal pm @ [it] \<rparr>;
          (pm2, out) = solicit steps ships rest pm1
      in (pm2, cfps steps pm ships it d @ out))"

text \<open>The loop over the drained messages: every message, whatever its performative,
  is appended to the bid list of the item in its body; a plain dictionary raises
  KeyError for an item with no entry.\<close>

fun collect ::
  "(nat \<Rightarrow> item_rand) \<Rightarrow> nat \<Rightarrow> message list \<Rightarrow> (int \<rightharpoonup> message list) \<Rightarrow>
   py_error + (int \<rightharpoonup> message list)"
where
  "collect rj k [] P = Inr P"
| "collect rj k (m # ms) P =
     (let key = uid (from_json (m_item m) (rj k)) in
      case P key of
        None \<Rightarrow> Inl KeyError
      | Some ps \<Rightarrow> collect rj (Suc k) ms (P(key \<mapsto> ps @ [m])))"

text \<open>The scan for the best bid: \<open>best_scan ps i bestRank bestUtility\<close> is the loop
  from index \<open>i\<close> on, over the bids \<open>ps\<close> still to visit.\<close>

fun best_scan :: "message list \<Rightarrow> nat \<Rightarrow> nat \<Rightarrow> real \<Rightarrow> py_error + nat" where
  "best_scan [] i bestRank bestUtility = Inr bestRank"
| "best_scan (p # ps) i bestRank bestUtility =
     (case body_field p 3 of
        Inl e \<Rightarrow> Inl e
      | Inr u \<Rightarrow>
          if u > bestUtility then best_scan ps (Suc i) i u
          else best_scan ps (Suc i) bestRank bestUtility)"

text \<open>The answers: accept at \<open>bestRank\<close>, reject elsewhere, each to the sender of the
  bid at that index.\<close>

fun answers :: "string \<Rightarrow> int \<Rightarrow> item \<Rightarrow> nat \<Rightarrow> nat \<Rightarrow> message list \<Rightarrow> py_error + message list" where
  "answers jid steps w bestRank j [] = Inr []"
| "answers jid steps w bestRank j (p # ps) =
     (case body_field p 1 of
        Inl e \<Rightarrow> Inl e
      | Inr x \<Rightarrow>
          (case body_field p 2 of
             Inl e \<Rightarrow> Inl e
           | Inr y \<Rightarrow>
               (case answers jid steps w bestRank (Suc j) ps of
                  Inl e \<Rightarrow> Inl e
                | Inr out \<Rightarrow>
                    Inr (\<lparr> m_to = m_sender p, m_sender = jid, m_item = w,
                           m_fields = [x, y],
                           performative =
                             (if j = bestRank then ''accept_proposal'' else ''reject_proposal''),
                           turn = steps \<rparr> # out))))"

definition award :: "string \<Rightarrow> int \<Rightarrow> item \<Rightarrow> message list \<Rightarrow> py_error + message list" where
  "award jid steps w ps =
     (case best_scan ps 0 0 0 of
        Inl e \<Rightarrow> Inl e
      | Inr bestRank \<Rightarrow> answers jid steps w bestRank 0 ps)"

text \<open>The loop over \<open>enumerate(self.waiting_for_proposal)\<close>: \<open>l\<close> is the index of the
  head of the items still to visit, \<open>out\<close> the messages sent so far and \<open>dels\<close> the
  list \<open>items_to_del\<close>.\<close>

fun resolve ::
  "int \<Rightarrow> (nat \<Rightarrow> nat) \<Rightarrow> nat \<Rightarrow> item list \<Rightarrow> planet_manager \<Rightarrow> message list \<Rightarrow> nat list \<Rightarrow>
   py_error + (planet_manager \<times> message list \<times> nat list)"
where
  "resolve steps ch l [] pm out dels = Inr (pm, out, dels)"
| "resolve steps ch l (w # ws) pm out dels =
     (case start_times pm (uid w) of
        None \<Rightarrow> Inl KeyError
      | Some st \<Rightarrow>
          let waiting_time = steps - st in
          if waiting_time > WAITING_TIME then
            (case proposals pm (uid w) of
               None \<Rightarrow> Inl KeyError
             | Some ps \<Rightarrow>
                 (case (if length ps > 0
                        then (case award (p_jid pm) steps w ps of
                                Inl e \<Rightarrow> Inl e
                              | Inr msgs \<Rightarrow> Inr (pm, msgs))
                        else (case py_choice (ch l) (p_planets pm) of
                                Inl e \<Rightarrow> Inl e
                              | Inr d \<Rightarrow>
                                  Inr (pm\<lparr>items_to_ship := dict_set (items_to_ship pm) w d\<rparr>,
                                       []))) of
                    Inl e \<Rightarrow> Inl e
                  | Inr (pm1, msgs) \<Rightarrow>
                      resolve steps ch (Suc l) ws
                        (pm1\<lparr> proposals := (proposals pm1)(uid w := None),
                              start_times := (start_times pm1)(uid w := None) \<rparr>)
                        (out @ msgs) (dels @ [l])))
          else resolve steps ch (Suc l) ws pm out dels)"

text \<open>\<open>for k in items_to_del: self.waiting_for_proposal.pop(k)\<close>.\<close>

fun pop_all :: "nat list \<Rightarrow> 'a list \<Rightarrow> py_error + 'a list" where
  "pop_all [] xs = Inr xs"
| "pop_all (k # ks) xs =
     (if k < length xs then pop_all ks (take k xs @ drop (Suc k) xs) else Inl IndexError)"

text \<open>\<open>PlanetManager.step\<close>. \<open>steps\<close> is \<open>model.schedule.steps\<close>, \<open>ships\<close> the
  ships as they are when the planet steps, \<open>msg_box\<close> the drained mailbox. The result
  is the new state, the model's items and the messages sent, in order.\<close>

definition PlanetManager_step ::
  "int \<Rightarrow> planet_rand \<Rightarrow> ship list \<Rightarrow> message list \<Rightarrow> planet_manager \<Rightarrow> world \<Rightarrow>
   py_error + (planet_manager \<times> world \<times> message list)"
where
  "PlanetManager_step steps r ships msg_box pm w =
     (case spawn r pm w of
        Inl e \<Rightarrow> Inl e
      | Inr (pm1, w1) \<Rightarrow>
          let (pm2, out1) = solicit steps ships (items_to_ship pm1) pm1;
              pm3 = pm2\<lparr>items_to_ship := []\<rparr>
          in
          (case collect (r_json r) 0 msg_box (proposals pm3) of
             Inl e \<Rightarrow> Inl e
           | Inr P \<Rightarrow>
               let pm4 = pm3\<lparr>proposals := P\<rparr> in
               (case resolve steps (r_requeue r) 0 (p_waiting_for_proposal pm4) pm4 [] [] of
                  Inl e \<Rightarrow> Inl e
                | Inr (pm5, out2, dels) \<Rightarrow>
                    (case pop_all (rev (sort dels)) (p_waiting_for_proposal pm5) of
                       Inl e \<Rightarrow> Inl e
                     | Inr ws \<Rightarrow>
                         Inr (pm5\<lparr>p_waiting_for_proposal := ws\<rparr>, w1, out1 @ out2)))))"

text \<open>The utility a bid carries (field 3 of its body), and the bids whose body has
  the three fields the planet reads.\<close>

definition bid_utility :: "message \<Rightarrow> real" where
  "bid_utility p = (case body_field p 3 of Inl e \<Rightarrow> 0 | Inr u \<Rightarrow> u)"

definition well_formed_bid :: "message \<Rightarrow> bool" where
  "well_formed_bid p \<longleftrightarrow> 3 \<le> length (m_fields p)"

text \<open>The two \<open>del\<close> statements that end a round in the loop of
  \<open>PlanetManager.step\<close>, and the messages of a drained mailbox that the loop over the
  messages files under the item with unique id \<open>u\<close>, in order (\<open>k\<close> is the index of
  the first message).\<close>

definition close_round :: "planet_manager \<Rightarrow> item \<Rightarrow> planet_manager" where
  "close_round pm w = pm\<lparr> proposals := (proposals pm)(uid w := None),
                          start_times := (start_times pm)(uid w := None) \<rparr>"

fun arrivals :: "(nat \<Rightarrow> item_rand) \<Rightarrow> nat \<Rightarrow> message list \<Rightarrow> int \<Rightarrow> message list" where
  "arrivals rj k [] u = []"
| "arrivals rj k (m # ms) u =
     (if uid (from_json (m_item m) (rj k)) = u then [m] else []) @ arrivals rj (Suc k) ms u"

subsection \<open>SpaceRoadNetwork\<close>

text \<open>A \<open>networkx\<close> graph as far as the program uses it: the nodes in insertion order
  and the edges in insertion order, each with its \<open>distance\<close> attribute. An edge is an
  unordered pair. \<open>add_edge\<close> adds missing end points and overwrites the attribute of an
  edge that is already there.

  \<open>nx.connected_components\<close> is modelled by labels: every node starts as its own label,
  and each edge relabels the class of its second end point with the label of its first.
  The components are the label classes, listed in the order of their first node, as the
  library yields them. The lemma \<open>labels_conn\<close> below shows that two nodes carry one
  label exactly when a path joins them.\<close>

record 'n nxgraph =
  g_nodes :: "'n list"
  g_edges :: "(('n \<times> 'n) \<times> real) list"

definition empty_graph :: "'n nxgraph" where
  "empty_graph = \<lparr> g_nodes = [], g_edges = [] \<rparr>"

definition add_node :: "'n \<Rightarrow> 'n nxgraph \<Rightarrow> 'n nxgraph" where
  "add_node v g = (if v \<in> set (g_nodes g) then g else g\<lparr>g_nodes := g_nodes g @ [v]\<rparr>)"

definition same_edge :: "'n \<times> 'n \<Rightarrow> 'n \<times> 'n \<Rightarrow> bool" where
  "same_edge e f = (e = f \<or> e = (snd f, fst f))"

definition has_edge :: "'n nxgraph \<Rightarrow> 'n \<Rightarrow> 'n \<Rightarrow> bool" where
  "has_edge g u v = list_ex (\<lambda>e. same_edge e (u, v)) (map fst (g_edges g))"

definition add_edge :: "'n \<Rightarrow> 'n \<Rightarrow> real \<Rightarrow> 'n nxgraph \<Rightarrow> 'n nxgraph" where
  "add_edge u v d g =
     (let g1 = add_node v (add_node u g) in
      if has_edge g1 u v
      then g1\<lparr>g_edges := map (\<lambda>(e, d'). if same_edge e (u, v) then (e, d) else (e, d')) (g_edges g1)\<rparr>
      else g1\<lparr>g_edges := g_edges g1 @ [((u, v), d)]\<rparr>)"

fun unite :: "('n \<Rightarrow> 'n) \<Rightarrow> 'n \<times> 'n \<Rightarrow> ('n \<Rightarrow> 'n)" where
  "unite lab (u, v) = (\<lambda>x. if lab x = lab v then lab u else lab x)"

definition labels :: "'n nxgraph \<Rightarrow> 'n \<Rightarrow> 'n" where
  "labels g = foldl unite (\<lambda>x. x) (map fst (g_edges g))"

definition firsts :: "'a list \<Rightarrow> 'a list" where
  "firsts xs = rev (remdups (rev xs))"

definition connected_components :: "'n nxgraph \<Rightarrow> 'n list list" where
  "connected_components g =
     map (\<lambda>r. filter (\<lambda>x. labels g x = r) (g_nodes g)) (firsts (map (labels g) (g_nodes g)))"

definition conn :: "'n nxgraph \<Rightarrow> ('n \<times> 'n) set" where
  "conn g = (let E = fst ` set (g_edges g) in (E \<union> E\<inverse>)\<^sup>*)"

lemma length_firsts: "length (firsts xs) = card (set xs)"
  by (simp add: firsts_def length_remdups_card_conv)

lemma length_components: "length (connected_components g) = card (labels g ` set (g_nodes g))"
  unfolding connected_components_def length_map length_firsts by simp

lemma unite_same: "lab x = lab y \<Longrightarrow> unite lab e x = unite lab e y"
  by (cases e) simp

lemma unite_ends: "unite lab (u, v) u = unite lab (u, v) v"
  by simp

lemma foldl_unite_same: "lab x = lab y \<Longrightarrow> foldl unite lab es x = foldl unite lab es y"
proof (induction es arbitrary: lab)
  case Nil
  then show ?case by simp
next
  case (Cons e es)
  have "unite lab e x = unite lab e y" using Cons.prems by (rule unite_same)
  then show ?case using Cons.IH[of "unite lab e"] by simp
qed

lemma labels_edge:
  assumes "(u, v) \<in> fst ` set (g_edges g)"
  shows "labels g u = labels g v"
proof -
  from assms have "(u, v) \<in> set (map fst (g_edges g))" by simp
  then obtain xs ys where "map fst (g_edges g) = xs @ (u, v) # ys"
    by (meson split_list)
  moreover have "foldl unite (unite (foldl unite (\<lambda>x. x) xs) (u, v)) ys u
      = foldl unite (unite (foldl unite (\<lambda>x. x) xs) (u, v)) ys v"
    by (rule foldl_unite_same) simp
  ultimately show ?thesis
    unfolding labels_def by simp
qed

lemma labels_complete: "(x, y) \<in> conn g \<Longrightarrow> labels g x = labels g y"
  unfolding conn_def Let_def
proof (induction rule: rtrancl_induct)
  case base
  then show ?case by simp
next
  case (step y z)
  from step.hyps(2) have "(y, z) \<in> fst ` set (g_edges g) \<or> (z, y) \<in> fst ` set (g_edges g)"
    by blast
  then have "labels g y = labels g z"
    using labels_edge[of y z g] labels_edge[of z y g] by metis
  with step.IH show ?case by simp
qed

lemma conn_refl: "(x, x) \<in> conn g"
  by (simp add: conn_def Let_def)

lemma conn_sym: "(x, y) \<in> conn g \<Longrightarrow> (y, x) \<in> conn g"
proof -
  have "sym ((fst ` set (g_edges g) \<union> (fst ` set (g_edges g))\<inverse>)\<^sup>*)"
    by (rule sym_rtrancl) (simp add: sym_Un_converse)
  then show "(x, y) \<in> conn g \<Longrightarrow> (y, x) \<in> conn g"
    unfolding conn_def Let_def by (rule symD)
qed

lemma conn_trans: "(x, y) \<in> conn g \<Longrightarrow> (y, z) \<in> conn g \<Longrightarrow> (x, z) \<in> conn g"
  unfolding conn_def Let_def by (rule rtrancl_trans)

lemma conn_edge: "(u, v) \<in> fst ` set (g_edges g) \<Longrightarrow> (u, v) \<in> conn g"
  unfolding conn_def Let_def by (rule r_into_rtrancl) blast

text \<open>Soundness of the labels, for any relation that is reflexive, symmetric, transitive
  and holds the edges.\<close>

lemma unite_sound:
  assumes lab: "\<And>x y. lab x = lab y \<Longrightarrow> (x, y) \<in> R"
    and e: "(u, v) \<in> R"
    and sym: "\<And>x y. (x, y) \<in> R \<Longrightarrow> (y, x) \<in> R"
    and trans: "\<And>x y z. (x, y) \<in> R \<Longrightarrow> (y, z) \<in> R \<Longrightarrow> (x, z) \<in> R"
    and eq: "unite lab (u, v) x = unite lab (u, v) y"
  shows "(x, y) \<in> R"
proof (cases "lab x = lab v")
  case xv: True
  show ?thesis
  proof (cases "lab y = lab v")
    case True
    with xv have "lab x = lab y" by simp
    then show ?thesis by (rule lab)
  next
    case False
    with xv eq have "lab u = lab y" by simp
    then have uy: "(u, y) \<in> R" by (rule lab)
    have "(x, v) \<in> R" using xv by (rule lab)
    moreover have "(v, u) \<in> R" using e by (rule sym)
    ultimately have "(x, u) \<in> R" by (rule trans)
    then show ?thesis using uy by (rule trans)
  qed
next
  case xv: False
  show ?thesis
  proof (cases "lab y = lab v")
    case True
    with xv eq have "lab x = lab u" by simp
    then have "(x, u) \<in> R" by (rule lab)
    then have "(x, v) \<in> R" using e by (rule trans)
    moreover have "(v, y) \<in> R" using True[symmetric] by (rule lab)
    ultimately show ?thesis by (rule trans)
  next
    case False
    with xv eq have "lab x = lab y" by simp
    then show ?thesis by (rule lab)
  qed
qed

lemma foldl_unite_sound:
  assumes sym: "\<And>x y. (x, y) \<in> R \<Longrightarrow> (y, x) \<in> R"
    and trans: "\<And>x y z. (x, y) \<in> R \<Longrightarrow> (y, z) \<in> R \<Longrightarrow> (x, z) \<in> R"
  shows "(\<And>x y. lab x = lab y \<Longrightarrow> (x, y) \<in> R) \<Longrightarrow> set es \<subseteq> R \<Longrightarrow>
         foldl unite lab es x = foldl unite lab es y \<Longrightarrow> (x, y) \<in> R"
proof (induction es arbitrary: lab)
  case Nil
  then show ?case by simp
next
  case (Cons e es)
  obtain u v where e: "e = (u, v)" by (cases e)
  have uv: "(u, v) \<in> R" using Cons.prems(2) e by simp
  have step: "\<And>x y. unite lab e x = unite lab e y \<Longrightarrow> (x, y) \<in> R"
    unfolding e using Cons.prems(1) uv sym trans by (rule unite_sound)
  have "foldl unite (unite lab e) es x = foldl unite (unite lab e) es y"
    using Cons.prems(3) by simp
  with Cons.IH[of "unite lab e"] step Cons.prems(2) show ?case by simp
qed

lemma labels_sound: "labels g x = labels g y \<Longrightarrow> (x, y) \<in> conn g"
proof -
  assume eq: "labels g x = labels g y"
  have sub: "set (map fst (g_edges g)) \<subseteq> conn g"
  proof
    fix e assume "e \<in> set (map fst (g_edges g))"
    then have "(fst e, snd e) \<in> fst ` set (g_edges g)" by simp
    then have "(fst e, snd e) \<in> conn g" by (rule conn_edge)
    then show "e \<in> conn g" by simp
  qed
  show ?thesis
  proof (rule foldl_unite_sound[where R = "conn g" and lab = "\<lambda>x. x"
        and es = "map fst (g_edges g)"])
    show "\<And>x y. (x, y) \<in> conn g \<Longrightarrow> (y, x) \<in> conn g" by (rule conn_sym)
    show "\<And>x y z. (x, y) \<in> conn g \<Longrightarrow> (y, z) \<in> conn g \<Longrightarrow> (x, z) \<in> conn g"
      by (rule conn_trans)
    show "\<And>a b. a = b \<Longrightarrow> (a, b) \<in> conn g" by (simp add: conn_refl)
    show "set (map fst (g_edges g)) \<subseteq> conn g" by (rule sub)
    show "foldl unite (\<lambda>x. x) (map fst (g_edges g)) x = foldl unite (\<lambda>x. x) (map fst (g_edges g)) y"
      using eq unfolding labels_def .
  qed
qed

text \<open>Two nodes carry the same label exactly when a path of roads joins them.\<close>

lemma labels_conn: "labels g x = labels g y \<longleftrightarrow> (x, y) \<in> conn g"
proof
  show "labels g x = labels g y \<Longrightarrow> (x, y) \<in> conn g" by (rule labels_sound)
  show "(x, y) \<in> conn g \<Longrightarrow> labels g x = labels g y" by (rule labels_complete)
qed

lemma unite_image:
  assumes "u \<in> S" "v \<in> S"
  shows "unite lab (u, v) ` S = lab ` S - {lab v} \<union> {lab u}"
proof (rule set_eqI)
  fix r
  show "r \<in> unite lab (u, v) ` S \<longleftrightarrow> r \<in> lab ` S - {lab v} \<union> {lab u}"
  proof
    assume "r \<in> unite lab (u, v) ` S"
    then obtain x where x: "x \<in> S" "r = unite lab (u, v) x" by blast
    then show "r \<in> lab ` S - {lab v} \<union> {lab u}"
      by (cases "lab x = lab v") auto
  next
    assume "r \<in> lab ` S - {lab v} \<union> {lab u}"
    then consider (a) x where "x \<in> S" "r = lab x" "lab x \<noteq> lab v" | (b) "r = lab u" by blast
    then show "r \<in> unite lab (u, v) ` S"
    proof cases
      case a
      then have "unite lab (u, v) x = r" by simp
      with a(1) show ?thesis by blast
    next
      case b
      have "unite lab (u, v) v = r" using b by simp
      with assms(2) show ?thesis by blast
    qed
  qed
qed

lemma card_unite:
  assumes fin: "finite S" and u: "u \<in> S" and v: "v \<in> S" and ne: "lab u \<noteq> lab v"
  shows "card (unite lab (u, v) ` S) < card (lab ` S)"
proof -
  have "lab u \<in> lab ` S - {lab v}" using u ne by blast
  then have "unite lab (u, v) ` S = lab ` S - {lab v}"
    unfolding unite_image[OF u v] by (simp add: insert_absorb)
  moreover have "lab v \<in> lab ` S" using v by blast
  moreover have "finite (lab ` S)" using fin by (rule finite_imageI)
  ultimately show ?thesis using card_Diff1_less[of "lab ` S" "lab v"] by metis
qed

lemma set_nodes_add_node: "set (g_nodes (add_node v g)) = insert v (set (g_nodes g))"
  by (auto simp: add_node_def)

lemma edges_add_node: "g_edges (add_node v g) = g_edges g"
  by (simp add: add_node_def)

lemma add_node_known: "v \<in> set (g_nodes g) \<Longrightarrow> add_node v g = g"
  by (simp add: add_node_def)

lemma has_edge_iff:
  "has_edge g u v \<longleftrightarrow> (u, v) \<in> fst ` set (g_edges g) \<or> (v, u) \<in> fst ` set (g_edges g)"
  unfolding has_edge_def list_ex_iff same_edge_def by force

lemma has_edge_labels: "has_edge g u v \<Longrightarrow> labels g u = labels g v"
  unfolding has_edge_iff using labels_edge[of u v g] labels_edge[of v u g] by metis

lemma add_edge_new:
  assumes "u \<in> set (g_nodes g)" "v \<in> set (g_nodes g)" "\<not> has_edge g u v"
  shows "add_edge u v d g = g\<lparr>g_edges := g_edges g @ [((u, v), d)]\<rparr>"
  using assms by (simp add: add_edge_def add_node_known)

lemma labels_snoc: "labels (g\<lparr>g_edges := g_edges g @ [((u, v), d)]\<rparr>) = unite (labels g) (u, v)"
  by (simp add: labels_def)

lemma components_decrease:
  assumes u: "u \<in> set (g_nodes g)" and v: "v \<in> set (g_nodes g)"
    and ne: "labels g u \<noteq> labels g v"
  shows "length (connected_components (add_edge u v d g)) < length (connected_components g)"
proof -
  have "\<not> has_edge g u v" using ne has_edge_labels[of g u v] by blast
  then have new: "add_edge u v d g = g\<lparr>g_edges := g_edges g @ [((u, v), d)]\<rparr>"
    using u v by (simp add: add_edge_new)
  have "card (unite (labels g) (u, v) ` set (g_nodes g)) < card (labels g ` set (g_nodes g))"
    using u v ne by (intro card_unite) simp_all
  then show ?thesis
    unfolding length_components new labels_snoc by simp
qed

lemma distinct_firsts: "distinct (firsts xs)"
  by (simp add: firsts_def)

lemma set_firsts: "set (firsts xs) = set xs"
  by (simp add: firsts_def)

lemma components_first_two:
  assumes cc: "connected_components g = c0 # c1 # rest" and a: "a \<in> set c0" and b: "b \<in> set c1"
  shows "a \<in> set (g_nodes g) \<and> b \<in> set (g_nodes g) \<and> labels g a \<noteq> labels g b"
proof -
  from cc obtain r0 r1 rs where rs: "firsts (map (labels g) (g_nodes g)) = r0 # r1 # rs"
    and c0: "c0 = filter (\<lambda>x. labels g x = r0) (g_nodes g)"
    and c1: "c1 = filter (\<lambda>x. labels g x = r1) (g_nodes g)"
    unfolding connected_components_def by (auto simp: map_eq_Cons_conv)
  have "distinct (r0 # r1 # rs)" using distinct_firsts[of "map (labels g) (g_nodes g)"] rs by simp
  then have "r0 \<noteq> r1" by simp
  moreover have "labels g a = r0" "a \<in> set (g_nodes g)" using a c0 by simp_all
  moreover have "labels g b = r1" "b \<in> set (g_nodes g)" using b c1 by simp_all
  ultimately show ?thesis by simp
qed

lemma py_choice_mem: "py_choice k xs = Inr a \<Longrightarrow> a \<in> set xs"
  by (auto simp: py_choice_def split: if_splits)

lemma py_choice_nonempty: "xs \<noteq> [] \<Longrightarrow> \<exists>a. py_choice k xs = Inr a"
  by (simp add: py_choice_def)

definition planet_distance :: "planet \<Rightarrow> planet \<Rightarrow> real" where
  "planet_distance p q = norm2 (px p - px q, py p - py q)"

function reconnect :: "(nat \<Rightarrow> nat \<times> nat) \<Rightarrow> nat \<Rightarrow> planet nxgraph \<Rightarrow> py_error + planet nxgraph" where
  "reconnect pick k g =
     (case connected_components g of
        [] \<Rightarrow> Inl IndexError
      | [c] \<Rightarrow> Inr g
      | c0 # c1 # rest \<Rightarrow>
          (case py_choice (fst (pick k)) c0 of
             Inl e \<Rightarrow> Inl e
           | Inr first_element \<Rightarrow>
               (case py_choice (snd (pick k)) c1 of
                  Inl e \<Rightarrow> Inl e
                | Inr second_element \<Rightarrow>
                    reconnect pick (Suc k)
                      (add_edge first_element second_element
                         (planet_distance first_element second_element) g))))"
  by pat_completeness auto
termination
proof (relation "measure (\<lambda>(pick, k, g). length (connected_components g))")
  show "wf (measure (\<lambda>(pick, k, g). length (connected_components g)))" by simp
next
  fix pick :: "nat \<Rightarrow> nat \<times> nat" and k :: nat and g :: "planet nxgraph"
    and c0 cs c1 rest a b
  assume cc: "connected_components g = c0 # cs" "cs = c1 # rest"
    and a: "py_choice (fst (pick k)) c0 = Inr a"
    and b: "py_choice (snd (pick k)) c1 = Inr b"
  have "a \<in> set c0" "b \<in> set c1" using a b by (auto dest: py_choice_mem)
  with cc have "a \<in> set (g_nodes g) \<and> b \<in> set (g_nodes g) \<and> labels g a \<noteq> labels g b"
    by (intro components_first_two[of g c0 c1 rest]) simp_all
  then have "length (connected_components (add_edge a b (planet_distance a b) g))
      < length (connected_components g)"
    by (intro components_decrease) simp_all
  then show "((pick, Suc k, add_edge a b (planet_distance a b) g), pick, k, g)
      \<in> measure (\<lambda>(pick, k, g). length (connected_components g))"
    by simp
qed

text \<open>The rest of the constructor: the random edges, the edge view \<open>G.edges\<close> (each
  edge once, from the end point that comes first in node order, neighbours in insertion
  order), the copy into \<open>current_graph\<close> and the speed multipliers. \<open>bern i j\<close> is the
  result of \<open>random.random()\<close> for the pair \<open>(i, j)\<close>, \<open>pick k\<close> the two indices
  \<open>random.choice\<close> picks in round \<open>k\<close> of the reconnection loop.

  In \<open>step\<close> the loop variable \<open>state\<close> is the attribute dictionary of the edge (the
  value of \<open>edges.items()\<close>), which the source compares with the floats of
  \<open>road_states\<close>; \<open>py_ne\<close> is Python's \<open>!=\<close> on these two kinds of values. \<open>rnd k\<close>
  is the pair of results of \<open>random.random()\<close> and \<open>random.choice\<close> at edge \<open>k\<close>.\<close>

declare reconnect.simps [simp del]

definition draw_edges :: "planet list \<Rightarrow> real \<Rightarrow> (nat \<Rightarrow> nat \<Rightarrow> real) \<Rightarrow> planet nxgraph" where
  "draw_edges planets rbf bern =
     foldl (\<lambda>g i.
              foldl (\<lambda>g j. if bern i j < rbf
                            then add_edge (planets ! i) (planets ! j)
                                   (planet_distance (planets ! i) (planets ! j)) g
                            else g)
                    (add_node (planets ! i) g) [0..<i])
           empty_graph [0..<length planets]"

definition adj :: "'n nxgraph \<Rightarrow> 'n \<Rightarrow> ('n \<times> real) list" where
  "adj g u =
     concat (map (\<lambda>((a, b), d). if a = u then [(b, d)] else if b = u then [(a, d)] else [])
                 (g_edges g))"

definition nx_edges :: "'n nxgraph \<Rightarrow> (('n \<times> 'n) \<times> real) list" where
  "nx_edges g =
     concat (map (\<lambda>k. let u = g_nodes g ! k in
                      map (\<lambda>(v, d). ((u, v), d))
                          (filter (\<lambda>(v, d). v \<notin> set (take k (g_nodes g))) (adj g u)))
                 [0..<length (g_nodes g)])"

record road_network =
  initial_graph :: "planet nxgraph"
  current_graph :: "planet nxgraph"
  speed_modificator :: "planet \<times> planet \<rightharpoonup> real"

fun copy_edge ::
  "planet nxgraph \<times> (planet \<times> planet \<rightharpoonup> real) \<Rightarrow> (planet \<times> planet) \<times> real \<Rightarrow>
   planet nxgraph \<times> (planet \<times> planet \<rightharpoonup> real)"
where
  "copy_edge (g, sm) ((u, v), d) = (add_edge u v d g, sm((u, v) \<mapsto> 1, (v, u) \<mapsto> 1))"

definition SpaceRoadNetwork_init ::
  "planet list \<Rightarrow> real \<Rightarrow> (nat \<Rightarrow> nat \<Rightarrow> real) \<Rightarrow> (nat \<Rightarrow> nat \<times> nat) \<Rightarrow> py_error + road_network"
where
  "SpaceRoadNetwork_init planets road_branching_factor bern pick =
     (case reconnect pick 0 (draw_edges planets road_branching_factor bern) of
        Inl e \<Rightarrow> Inl e
      | Inr g \<Rightarrow>
          let (cg, sm) = foldl copy_edge (empty_graph, Map.empty) (nx_edges g) in
          Inr \<lparr> initial_graph = g, current_graph = cg, speed_modificator = sm \<rparr>)"

datatype pyval = PyFloat real | PyDict "(string \<times> real) list"

fun py_ne :: "pyval \<Rightarrow> pyval \<Rightarrow> bool" where
  "py_ne (PyFloat a) (PyFloat b) = (a \<noteq> b)"
| "py_ne (PyDict a) (PyDict b) = (set a \<noteq> set b)"
| "py_ne (PyFloat a) (PyDict b) = True"
| "py_ne (PyDict a) (PyFloat b) = True"

definition road_states :: "real list" where
  "road_states = [0, 1 / 2, 1]"

fun road_loop ::
  "(nat \<Rightarrow> real \<times> nat) \<Rightarrow> nat \<Rightarrow> ((planet \<times> planet) \<times> real) list \<Rightarrow>
   (planet \<times> planet \<rightharpoonup> real) \<Rightarrow> py_error + (planet \<times> planet \<rightharpoonup> real)"
where
  "road_loop rnd k [] sm = Inr sm"
| "road_loop rnd k ((road, distance) # rest) sm =
     (let state = PyDict [(''distance'', distance)]; p = fst (rnd k) in
      if p < PROBA_ISSUE_ROAD then
        (case py_choice (snd (rnd k)) (filter (\<lambda>n. py_ne (PyFloat n) state) road_states) of
           Inl e \<Rightarrow> Inl e
         | Inr new_state \<Rightarrow>
             road_loop rnd (Suc k) rest
               (sm(road \<mapsto> new_state, (snd road, fst road) \<mapsto> new_state)))
      else road_loop rnd (Suc k) rest sm)"

definition SpaceRoadNetwork_step ::
  "(nat \<Rightarrow> real \<times> nat) \<Rightarrow> road_network \<Rightarrow> py_error + road_network"
where
  "SpaceRoadNetwork_step rnd e =
     (case road_loop rnd 0 (nx_edges (current_graph e)) (speed_modificator e) of
        Inl err \<Rightarrow> Inl err
      | Inr sm \<Rightarrow> Inr (e\<lparr>speed_modificator := sm\<rparr>))"

inductive evolves :: "road_network \<Rightarrow> road_network \<Rightarrow> bool" where
  start: "evolves e e"
| tick: "evolves e e1 \<Longrightarrow> SpaceRoadNetwork_step rnd e1 = Inr e2 \<Longrightarrow> evolves e e2"

text \<open>Well-formed graphs, the roads of a graph as a relation, and the invariant of the
  speed multipliers used below.\<close>

definition speed_ok :: "(planet \<times> planet \<rightharpoonup> real) \<Rightarrow> bool" where
  "speed_ok sm \<longleftrightarrow>
     (\<forall>u v. sm (u, v) = sm (v, u)) \<and> (\<forall>k x. sm k = Some x \<longrightarrow> x = 0 \<or> x = 1 / 2 \<or> x = 1)"

definition roads :: "'n nxgraph \<Rightarrow> ('n \<times> 'n) set" where
  "roads g = {(u, v). has_edge g u v}"

definition wf_graph :: "'n nxgraph \<Rightarrow> bool" where
  "wf_graph g \<longleftrightarrow> (\<forall>u v. has_edge g u v \<longrightarrow> u \<in> set (g_nodes g) \<and> v \<in> set (g_nodes g))"

text \<open>Three planets and a two-planet network, for the examples.\<close>

definition p0 :: planet where "p0 = \<lparr>pid = 0, px = 0, py = 0\<rparr>"
definition p1 :: planet where "p1 = \<lparr>pid = 1, px = 3, py = 4\<rparr>"
definition p2 :: planet where "p2 = \<lparr>pid = 2, px = 6, py = 0\<rparr>"

definition two_planet_roads :: "planet nxgraph" where
  "two_planet_roads = \<lparr> g_nodes = [p0, p1], g_edges = [((p0, p1), planet_distance p1 p0)] \<rparr>"

definition two_planet_network :: "real \<Rightarrow> road_network" where
  "two_planet_network x =
     \<lparr> initial_graph = \<lparr> g_nodes = [p0, p1], g_edges = [((p1, p0), planet_distance p1 p0)] \<rparr>,
       current_graph = two_planet_roads,
       speed_modificator = [(p0, p1) \<mapsto> x, (p1, p0) \<mapsto> x] \<rparr>"

text \<open>An item, a ship that is idle at the first planet, the same ship carrying the item
  to the second planet, and the call for proposals and the bid for that item.\<close>

definition cargo :: item where
  "cargo = \<lparr> it_a = 1 / 2, it_b = 1 / 2, it_c = 1 / 2, it_x = 0, it_y = 0, uid = 7 \<rparr>"

definition other_item :: item where
  "other_item = \<lparr> it_a = 1 / 4, it_b = 1 / 4, it_c = 1 / 4, it_x = 6, it_y = 0, uid = 5 \<rparr>"

definition idle_ship :: ship where
  "idle_ship =
     \<lparr> s_jid = ''ship-0@localhost'', preference_a = 1 / 2, preference_b = 1 / 4,
       preference_c = 1, s_planets = [p0, p1, p2], s_x = 0, s_y = 0, max_speed = 60,
       destination = None, potential_destination = None, waypoint = None,
       previous_point = p0, s_item = None, s_waiting_for_proposal = False \<rparr>"

definition carrier :: ship where
  "carrier = idle_ship\<lparr> destination := Some p1, waypoint := Some p1, s_item := Some cargo \<rparr>"

definition spare_rand :: item_rand where
  "spare_rand = \<lparr> ra = 3 / 10, rb = 6 / 10, rc = 9 / 10, ruid = 99 \<rparr>"

definition no_route :: "planet \<Rightarrow> planet option \<Rightarrow> py_error + planet" where
  "no_route p d = Inl NetworkXNoPath"

definition cfp_cargo :: message where
  "cfp_cargo =
     \<lparr> m_to = ''ship-0@localhost'', m_sender = ''planet-0@localhost'', m_item = cargo,
       m_fields = [3, 4], performative = ''call_for_proposal'', turn = 0 \<rparr>"

definition bid_cargo :: message where
  "bid_cargo =
     \<lparr> m_to = ''planet-0@localhost'', m_sender = ''ship-0@localhost'', m_item = cargo,
       m_fields = [3, 4, 7 / 8], performative = ''proposal'', turn = 0 \<rparr>"

text \<open>A planet with no round, a random source that spawns nothing, bids and answers
  for the item, and the planet while it collects bids for the item in a round started at
  tick 0.\<close>

definition depot :: planet_manager where
  "depot =
     \<lparr> p_jid = ''planet-0@localhost'', p_x = 0, p_y = 0, items_to_ship = [],
       p_waiting_for_proposal = [], start_times = Map.empty, proposals = Map.empty,
       p_planets = [p1, p2] \<rparr>"

definition quiet :: planet_rand where
  "quiet = \<lparr> r_new = 1 / 2, r_item = spare_rand, r_dest = 0,
             r_json = (\<lambda>k. spare_rand), r_requeue = (\<lambda>l. 1) \<rparr>"

definition bid_of :: "string \<Rightarrow> real \<Rightarrow> message" where
  "bid_of sender u =
     \<lparr> m_to = ''planet-0@localhost'', m_sender = sender, m_item = cargo,
       m_fields = [3, 4, u], performative = ''proposal'', turn = 1 \<rparr>"

definition answer_to :: "string \<Rightarrow> string \<Rightarrow> message" where
  "answer_to receiver perf =
     \<lparr> m_to = receiver, m_sender = ''planet-0@localhost'', m_item = cargo,
       m_fields = [3, 4], performative = perf, turn = 4 \<rparr>"

definition soliciting :: "message list \<Rightarrow> planet_manager" where
  "soliciting bids =
     depot\<lparr> p_waiting_for_proposal := [cargo], start_times := [7 \<mapsto> 0],
            proposals := [7 \<mapsto> bids] \<rparr>"

section \<open>Properties\<close>

subsection \<open>Item construction\<close>

text \<open>Supplied attributes other than zero are stored as they are, and a snapshot
  without a zero survives \<open>from_json\<close> unchanged.\<close>

lemma Item_init_supplied:
  "a \<noteq> 0 \<Longrightarrow> b \<noteq> 0 \<Longrightarrow> c \<noteq> 0 \<Longrightarrow> u \<noteq> 0 \<Longrightarrow>
   Item_init x y (Some a) (Some b) (Some c) (Some u) r =
     \<lparr> it_a = a, it_b = b, it_c = c, it_x = x, it_y = y, uid = u \<rparr>"
  by (simp add: Item_init_def py_not_def)

lemma from_json_id:
  "it_a j \<noteq> 0 \<Longrightarrow> it_b j \<noteq> 0 \<Longrightarrow> it_c j \<noteq> 0 \<Longrightarrow> uid j \<noteq> 0 \<Longrightarrow> from_json j r = j"
  by (simp add: from_json_def Item_init_supplied)

lemma uid_from_json: "uid j \<noteq> 0 \<Longrightarrow> uid (from_json j r) = uid j"
  by (simp add: from_json_def Item_init_def py_not_def)

text \<open>
  C9. The constructor is claimed to store every supplied attribute and to draw a random
  value only for an attribute that is not supplied. The test \<open>if not a\<close> is also true
  for a supplied \<open>0.0\<close>: deserialising a snapshot whose attribute \<open>a\<close> is \<open>0.0\<close>
  gives an item whose \<open>a\<close> is the next result of \<open>random.random()\<close> (here
  \<open>3/10\<close>), while \<open>b\<close>, \<open>c\<close> and the id are kept.
\<close>

theorem from_json_zero_attribute_redrawn:
  "from_json \<lparr> it_a = 0, it_b = 1 / 2, it_c = 1 / 4, it_x = 1, it_y = 2, uid = 7 \<rparr>
             \<lparr> ra = 3 / 10, rb = 6 / 10, rc = 9 / 10, ruid = 99 \<rparr>
   = \<lparr> it_a = 3 / 10, it_b = 1 / 2, it_c = 1 / 4, it_x = 1, it_y = 2, uid = 7 \<rparr>"
  by (simp add: from_json_def Item_init_def py_not_def)

subsection \<open>The road network\<close>

lemma set_nodes_add_edge:
  "set (g_nodes (add_edge u v d g)) = insert u (insert v (set (g_nodes g)))"
  by (auto simp: add_edge_def Let_def set_nodes_add_node)

lemma nodes_add_edge_known:
  "u \<in> set (g_nodes g) \<Longrightarrow> v \<in> set (g_nodes g) \<Longrightarrow> g_nodes (add_edge u v d g) = g_nodes g"
  by (simp add: add_edge_def Let_def add_node_known)

lemma set_nodes_inner:
  assumes "a \<in> set (g_nodes g)" "\<And>j. j \<in> set js \<Longrightarrow> f j \<in> set (g_nodes g)"
  shows "set (g_nodes (foldl (\<lambda>g j. if c j then add_edge a (f j) (w j) g else g) g js))
         = set (g_nodes g)"
  using assms
proof (induction js arbitrary: g)
  case Nil
  then show ?case by simp
next
  case (Cons j js)
  let ?g1 = "if c j then add_edge a (f j) (w j) g else g"
  have n1: "set (g_nodes ?g1) = set (g_nodes g)"
    using Cons.prems by (auto simp: set_nodes_add_edge)
  have "set (g_nodes (foldl (\<lambda>g j. if c j then add_edge a (f j) (w j) g else g) ?g1 js))
        = set (g_nodes ?g1)"
    using Cons.prems n1 by (intro Cons.IH) auto
  then show ?case using n1 by simp
qed

lemma set_nodes_outer:
  "n \<le> length planets \<Longrightarrow>
   set (g_nodes (foldl (\<lambda>g i.
              foldl (\<lambda>g j. if bern i j < rbf
                            then add_edge (planets ! i) (planets ! j)
                                   (planet_distance (planets ! i) (planets ! j)) g
                            else g)
                    (add_node (planets ! i) g) [0..<i])
           empty_graph [0..<n])) = set (take n planets)"
proof (induction n)
  case 0
  then show ?case by (simp add: empty_graph_def)
next
  case (Suc n)
  let ?outer = "\<lambda>g i.
              foldl (\<lambda>g j. if bern i j < rbf
                            then add_edge (planets ! i) (planets ! j)
                                   (planet_distance (planets ! i) (planets ! j)) g
                            else g)
                    (add_node (planets ! i) g) [0..<i]"
  let ?g = "foldl ?outer empty_graph [0..<n]"
  have IH: "set (g_nodes ?g) = set (take n planets)" using Suc by simp
  have n0: "set (g_nodes (add_node (planets ! n) ?g)) = insert (planets ! n) (set (take n planets))"
    using IH by (simp add: set_nodes_add_node)
  have inner: "set (g_nodes (?outer ?g n)) = set (g_nodes (add_node (planets ! n) ?g))"
  proof (rule set_nodes_inner)
    show "planets ! n \<in> set (g_nodes (add_node (planets ! n) ?g))" using n0 by simp
    fix j assume "j \<in> set [0..<n]"
    then have "j < n" by simp
    then have "planets ! j \<in> set (take n planets)"
      using Suc.prems by (auto simp: in_set_conv_nth intro!: exI[of _ j])
    then show "planets ! j \<in> set (g_nodes (add_node (planets ! n) ?g))" using n0 by simp
  qed
  have "set (take (Suc n) planets) = insert (planets ! n) (set (take n planets))"
    using Suc.prems by (simp add: take_Suc_conv_app_nth)
  then show ?case using inner n0 by simp
qed

lemma set_nodes_draw_edges: "set (g_nodes (draw_edges planets rbf bern)) = set planets"
  unfolding draw_edges_def using set_nodes_outer[of "length planets" planets bern rbf] by simp

lemma components_nonempty:
  assumes "c \<in> set (connected_components g)"
  shows "c \<noteq> []"
proof -
  from assms obtain r where r: "r \<in> set (firsts (map (labels g) (g_nodes g)))"
    and c: "c = filter (\<lambda>x. labels g x = r) (g_nodes g)"
    unfolding connected_components_def by auto
  from r obtain x where "x \<in> set (g_nodes g)" "labels g x = r"
    unfolding set_firsts by auto
  then have "x \<in> set c" using c by simp
  then show ?thesis by auto
qed

lemma components_empty_iff: "connected_components g = [] \<longleftrightarrow> g_nodes g = []"
proof -
  have "connected_components g = [] \<longleftrightarrow> length (connected_components g) = 0" by simp
  also have "\<dots> \<longleftrightarrow> g_nodes g = []" unfolding length_components by simp
  finally show ?thesis .
qed

lemma reconnect_total: "g_nodes g \<noteq> [] \<Longrightarrow> \<exists>g'. reconnect pick k g = Inr g'"
proof (induction pick k g rule: reconnect.induct)
  case (1 pick k g)
  show ?case
  proof (cases "connected_components g")
    case Nil
    then show ?thesis using "1.prems" components_empty_iff by blast
  next
    case (Cons c0 cs)
    note c0 = this
    show ?thesis
    proof (cases cs)
      case Nil
      then show ?thesis using c0 by (simp add: reconnect.simps)
    next
      case (Cons c1 rest)
      have "c0 \<noteq> []" "c1 \<noteq> []" using components_nonempty[of _ g] c0 Cons by simp_all
      then obtain a b where a: "py_choice (fst (pick k)) c0 = Inr a"
        and b: "py_choice (snd (pick k)) c1 = Inr b"
        using py_choice_nonempty by metis
      have "g_nodes (add_edge a b (planet_distance a b) g) \<noteq> []"
        using set_nodes_add_edge[of a b "planet_distance a b" g] by auto
      then have "\<exists>g'. reconnect pick (Suc k) (add_edge a b (planet_distance a b) g) = Inr g'"
        using "1.IH"[OF c0 Cons a b] by simp
      then show ?thesis using c0 Cons a b by (simp add: reconnect.simps)
    qed
  qed
qed

lemma reconnect_result:
  "reconnect pick k g = Inr g' \<Longrightarrow>
   length (connected_components g') = 1 \<and> set (g_nodes g') = set (g_nodes g)"
proof (induction pick k g rule: reconnect.induct)
  case (1 pick k g)
  show ?case
  proof (cases "connected_components g")
    case Nil
    then show ?thesis using "1.prems" by (simp add: reconnect.simps)
  next
    case (Cons c0 cs)
    note c0 = this
    show ?thesis
    proof (cases cs)
      case Nil
      then show ?thesis using c0 "1.prems" by (simp add: reconnect.simps)
    next
      case (Cons c1 rest)
      from "1.prems" c0 Cons obtain a b where a: "py_choice (fst (pick k)) c0 = Inr a"
        and b: "py_choice (snd (pick k)) c1 = Inr b"
        and r: "reconnect pick (Suc k) (add_edge a b (planet_distance a b) g) = Inr g'"
        by (auto simp: reconnect.simps split: sum.splits)
      have mem: "a \<in> set (g_nodes g) \<and> b \<in> set (g_nodes g) \<and> labels g a \<noteq> labels g b"
        using c0 Cons a b by (intro components_first_two[of g c0 c1 rest]) (auto dest: py_choice_mem)
      have "length (connected_components g') = 1 \<and>
            set (g_nodes g') = set (g_nodes (add_edge a b (planet_distance a b) g))"
        using "1.IH"[OF c0 Cons a b r] .
      then show ?thesis using mem by (simp add: nodes_add_edge_known)
    qed
  qed
qed

lemma one_component_conn:
  assumes one: "length (connected_components g) = 1"
    and u: "u \<in> set (g_nodes g)" and v: "v \<in> set (g_nodes g)"
  shows "(u, v) \<in> conn g"
proof -
  from one have "card (labels g ` set (g_nodes g)) = 1" unfolding length_components .
  then obtain r where "labels g ` set (g_nodes g) = {r}" by (auto simp: card_1_singleton_iff)
  then have "labels g u = r" "labels g v = r" using u v by blast+
  then have "labels g u = labels g v" by simp
  then show ?thesis by (rule labels_sound)
qed

lemma upd_pair_sym:
  assumes inv: "\<And>k. sw (sw k) = k" and sym: "\<And>k. m (sw k) = m k"
  shows "(m(k0 \<mapsto> x, sw k0 \<mapsto> x)) (sw k) = (m(k0 \<mapsto> x, sw k0 \<mapsto> x)) k"
proof (cases "k = sw k0")
  case True
  then show ?thesis by (simp add: inv)
next
  case n1: False
  show ?thesis
  proof (cases "k = k0")
    case True
    then show ?thesis by simp
  next
    case False
    have "sw k \<noteq> sw k0" using False inv by metis
    moreover have "sw k \<noteq> k0" using n1 inv by metis
    ultimately show ?thesis using n1 False sym by simp
  qed
qed

lemma upd_pair_val:
  "(m(k0 \<mapsto> x, k1 \<mapsto> x)) k = Some y \<Longrightarrow> y = x \<or> m k = Some y"
  by (simp split: if_splits)

lemma speed_ok_upd:
  assumes ok: "speed_ok sm" and x: "x = 0 \<or> x = 1 / 2 \<or> x = 1"
  shows "speed_ok (sm((u, v) \<mapsto> x, (v, u) \<mapsto> x))"
proof -
  let ?sm = "sm((u, v) \<mapsto> x, prod.swap (u, v) \<mapsto> x)"
  have sym: "\<And>k. sm (prod.swap k) = sm k"
  proof -
    fix k :: "planet \<times> planet"
    obtain a b where k: "k = (a, b)" by (cases k)
    show "sm (prod.swap k) = sm k" using ok unfolding speed_ok_def k by simp
  qed
  have val: "\<And>k y. sm k = Some y \<Longrightarrow> y = 0 \<or> y = 1 / 2 \<or> y = 1"
    using ok unfolding speed_ok_def by blast
  have s: "?sm (prod.swap k) = ?sm k" for k
    by (rule upd_pair_sym) (simp_all add: sym)
  have "?sm (a, b) = ?sm (b, a)" for a b
    using s[of "(b, a)"] by simp
  moreover have "y = 0 \<or> y = 1 / 2 \<or> y = 1" if "?sm k = Some y" for k y
    using upd_pair_val[OF that] x val by blast
  ultimately have "speed_ok ?sm" unfolding speed_ok_def by blast
  then show ?thesis by simp
qed

lemma keys_relabel:
  "fst ` set (map (\<lambda>(e, d'). if same_edge e f then (e, d) else (e, d')) es) = fst ` set es"
  by (induction es) auto

lemma keys_add_edge:
  "fst ` set (g_edges (add_edge u v d g)) \<subseteq> insert (u, v) (fst ` set (g_edges g))"
proof (cases "has_edge (add_node v (add_node u g)) u v")
  case True
  then have "g_edges (add_edge u v d g) =
      map (\<lambda>(e, d'). if same_edge e (u, v) then (e, d) else (e, d')) (g_edges g)"
    by (simp add: add_edge_def edges_add_node)
  then show ?thesis using keys_relabel[of "(u, v)" d "g_edges g"] by auto
next
  case False
  then have "g_edges (add_edge u v d g) = g_edges g @ [((u, v), d)]"
    by (simp add: add_edge_def edges_add_node)
  then show ?thesis by auto
qed

lemma copy_edges_inv:
  assumes "speed_ok sm" "\<And>u v. (u, v) \<in> fst ` set (g_edges g) \<Longrightarrow> sm (u, v) \<noteq> None"
    and "foldl copy_edge (g, sm) es = (g', sm')"
  shows "speed_ok sm' \<and> (\<forall>u v. (u, v) \<in> fst ` set (g_edges g') \<longrightarrow> sm' (u, v) \<noteq> None)"
  using assms
proof (induction es arbitrary: g sm)
  case Nil
  then show ?case by simp
next
  case (Cons e es)
  obtain u v d where e: "e = ((u, v), d)" by (metis prod.collapse)
  let ?g1 = "add_edge u v d g" and ?sm1 = "sm((u, v) \<mapsto> 1, (v, u) \<mapsto> 1)"
  have ok: "speed_ok ?sm1" using Cons.prems(1) by (intro speed_ok_upd) simp_all
  have dom: "\<And>a b. (a, b) \<in> fst ` set (g_edges ?g1) \<Longrightarrow> ?sm1 (a, b) \<noteq> None"
  proof -
    fix a b assume "(a, b) \<in> fst ` set (g_edges ?g1)"
    then have "(a, b) = (u, v) \<or> (a, b) \<in> fst ` set (g_edges g)"
      using keys_add_edge[of u v d g] by blast
    then show "?sm1 (a, b) \<noteq> None" using Cons.prems(2)[of a b] by auto
  qed
  have "foldl copy_edge (?g1, ?sm1) es = (g', sm')" using Cons.prems(3) e by simp
  with ok dom show ?case by (rule Cons.IH)
qed

lemma candidates_all:
  "filter (\<lambda>n. py_ne (PyFloat n) (PyDict d)) road_states = road_states"
  by (simp add: road_states_def)

lemma road_loop_inv:
  "speed_ok sm \<Longrightarrow>
   \<exists>sm'. road_loop rnd k es sm = Inr sm' \<and> speed_ok sm' \<and> dom sm \<subseteq> dom sm'"
proof (induction es arbitrary: k sm)
  case Nil
  then show ?case by simp
next
  case (Cons e es)
  obtain u v d where e: "e = ((u, v), d)" by (metis prod.collapse)
  show ?case
  proof (cases "fst (rnd k) < PROBA_ISSUE_ROAD")
    case False
    then show ?thesis using Cons.IH[OF Cons.prems, of "Suc k"] e by simp
  next
    case True
    obtain x where x: "py_choice (snd (rnd k)) road_states = Inr x"
      using py_choice_nonempty[of road_states] by (auto simp: road_states_def)
    then have "x \<in> set road_states" by (rule py_choice_mem)
    then have xs: "x = 0 \<or> x = 1 / 2 \<or> x = 1" by (auto simp: road_states_def)
    let ?sm1 = "sm((u, v) \<mapsto> x, (v, u) \<mapsto> x)"
    have "speed_ok ?sm1" using Cons.prems xs by (rule speed_ok_upd)
    then obtain sm' where r: "road_loop rnd (Suc k) es ?sm1 = Inr sm'" "speed_ok sm'"
      "dom ?sm1 \<subseteq> dom sm'"
      using Cons.IH[of ?sm1 "Suc k"] by blast
    have "dom sm \<subseteq> dom sm'" using r(3) by auto
    moreover have "road_loop rnd k (e # es) sm = Inr sm'"
      using True x r(1) e by (simp add: candidates_all)
    ultimately show ?thesis using r(2) by blast
  qed
qed

lemma step_frame:
  assumes "SpaceRoadNetwork_step rnd e = Inr e'"
  shows "initial_graph e' = initial_graph e \<and> current_graph e' = current_graph e"
  using assms by (auto simp: SpaceRoadNetwork_step_def split: sum.splits)

lemma step_inv:
  assumes "speed_ok (speed_modificator e)"
  shows "\<exists>e'. SpaceRoadNetwork_step rnd e = Inr e' \<and> speed_ok (speed_modificator e')
           \<and> dom (speed_modificator e) \<subseteq> dom (speed_modificator e')"
proof -
  obtain sm' where "road_loop rnd 0 (nx_edges (current_graph e)) (speed_modificator e) = Inr sm'"
    "speed_ok sm'" "dom (speed_modificator e) \<subseteq> dom sm'"
    using road_loop_inv[OF assms] by blast
  then show ?thesis by (simp add: SpaceRoadNetwork_step_def)
qed

lemma evolves_inv:
  assumes "evolves e0 e" "speed_ok (speed_modificator e0)"
  shows "speed_ok (speed_modificator e) \<and> dom (speed_modificator e0) \<subseteq> dom (speed_modificator e)
         \<and> initial_graph e = initial_graph e0 \<and> current_graph e = current_graph e0"
  using assms
proof (induction rule: evolves.induct)
  case (start e)
  then show ?case by simp
next
  case (tick e e1 rnd e2)
  have h: "speed_ok (speed_modificator e1)" "dom (speed_modificator e) \<subseteq> dom (speed_modificator e1)"
    "initial_graph e1 = initial_graph e" "current_graph e1 = current_graph e"
    using tick.IH tick.prems by blast+
  obtain e' where e': "SpaceRoadNetwork_step rnd e1 = Inr e'" "speed_ok (speed_modificator e')"
      "dom (speed_modificator e1) \<subseteq> dom (speed_modificator e')"
    using step_inv[OF h(1), of rnd] by blast
  have eq: "e2 = e'" using e'(1) tick.hyps(2) by simp
  have "dom (speed_modificator e) \<subseteq> dom (speed_modificator e2)"
    using h(2) e'(3) unfolding eq by (rule subset_trans)
  moreover have "initial_graph e2 = initial_graph e \<and> current_graph e2 = current_graph e"
    using step_frame[OF tick.hyps(2)] h(3,4) by simp
  ultimately show ?case using e'(2) eq by simp
qed

lemma init_inv:
  assumes "SpaceRoadNetwork_init planets rbf bern pick = Inr e"
  shows "speed_ok (speed_modificator e) \<and>
         (\<forall>u v. (u, v) \<in> fst ` set (g_edges (current_graph e)) \<longrightarrow> speed_modificator e (u, v) \<noteq> None)"
proof -
  from assms obtain g cg sm where g: "reconnect pick 0 (draw_edges planets rbf bern) = Inr g"
    and f: "foldl copy_edge (empty_graph, Map.empty) (nx_edges g) = (cg, sm)"
    and e: "e = \<lparr> initial_graph = g, current_graph = cg, speed_modificator = sm \<rparr>"
    by (auto simp: SpaceRoadNetwork_init_def Let_def split: sum.splits prod.splits)
  have "speed_ok Map.empty" by (simp add: speed_ok_def)
  moreover have "\<And>u v. (u, v) \<in> fst ` set (g_edges (empty_graph :: planet nxgraph)) \<Longrightarrow>
      (Map.empty :: planet \<times> planet \<rightharpoonup> real) (u, v) \<noteq> None"
    by (simp add: empty_graph_def)
  ultimately have "speed_ok sm \<and> (\<forall>u v. (u, v) \<in> fst ` set (g_edges cg) \<longrightarrow> sm (u, v) \<noteq> None)"
    using f by (rule copy_edges_inv)
  then show ?thesis using e by simp
qed

text \<open>
  C10. In every state the network reaches (after construction and after any number of
  steps, whatever the random source returns), every road \<open>{u, v}\<close> of the current graph
  has the same multiplier in both directions, and this multiplier is \<open>0.0\<close>, \<open>0.5\<close> or
  \<open>1.0\<close>.
\<close>

theorem speed_symmetric:
  assumes init: "SpaceRoadNetwork_init planets rbf bern pick = Inr e0"
    and run: "evolves e0 e"
    and road: "has_edge (current_graph e) u v"
  shows "speed_modificator e (u, v) = speed_modificator e (v, u) \<and>
         speed_modificator e (u, v) \<in> {Some 0, Some (1 / 2), Some 1}"
proof -
  have i0: "speed_ok (speed_modificator e0)"
    and d0: "\<And>a b. (a, b) \<in> fst ` set (g_edges (current_graph e0)) \<Longrightarrow>
       speed_modificator e0 (a, b) \<noteq> None"
    using init_inv[OF init] by blast+
  have inv: "speed_ok (speed_modificator e)"
    and dom: "dom (speed_modificator e0) \<subseteq> dom (speed_modificator e)"
    and cg: "current_graph e = current_graph e0"
    using evolves_inv[OF run i0] by blast+
  have sym: "speed_modificator e (u, v) = speed_modificator e (v, u)"
    using inv unfolding speed_ok_def by blast
  from road have "(u, v) \<in> fst ` set (g_edges (current_graph e0)) \<or>
      (v, u) \<in> fst ` set (g_edges (current_graph e0))"
    unfolding cg has_edge_iff .
  then have "speed_modificator e0 (u, v) \<noteq> None \<or> speed_modificator e0 (v, u) \<noteq> None"
    using d0 by blast
  then have "speed_modificator e (u, v) \<noteq> None \<or> speed_modificator e (v, u) \<noteq> None"
    using dom by blast
  then obtain x where "speed_modificator e (u, v) = Some x" using sym by auto
  moreover from this have "x = 0 \<or> x = 1 / 2 \<or> x = 1" using inv unfolding speed_ok_def by blast
  ultimately show ?thesis using sym by auto
qed

lemma conn_roads: "conn g = (roads g)\<^sup>*"
proof -
  have "roads g = fst ` set (g_edges g) \<union> (fst ` set (g_edges g))\<inverse>"
    unfolding roads_def has_edge_iff by auto
  then show ?thesis by (simp add: conn_def Let_def)
qed

lemma has_edge_add_edge:
  "has_edge (add_edge u v d g) a b \<longleftrightarrow> has_edge g a b \<or> (a = u \<and> b = v) \<or> (a = v \<and> b = u)"
proof (cases "has_edge (add_node v (add_node u g)) u v")
  case True
  then have e: "g_edges (add_edge u v d g) =
      map (\<lambda>(e, d'). if same_edge e (u, v) then (e, d) else (e, d')) (g_edges g)"
    by (simp add: add_edge_def edges_add_node)
  have k: "fst ` set (g_edges (add_edge u v d g)) = fst ` set (g_edges g)"
    unfolding e by (rule keys_relabel)
  have "has_edge g u v" using True unfolding has_edge_iff by (simp add: edges_add_node)
  then have "has_edge g v u" unfolding has_edge_iff by blast
  show ?thesis
    using \<open>has_edge g u v\<close> \<open>has_edge g v u\<close> unfolding has_edge_iff k by blast
next
  case False
  then have e: "g_edges (add_edge u v d g) = g_edges g @ [((u, v), d)]"
    by (simp add: add_edge_def edges_add_node)
  have k: "fst ` set (g_edges (add_edge u v d g)) = insert (u, v) (fst ` set (g_edges g))"
    unfolding e by simp
  show ?thesis unfolding has_edge_iff k by blast
qed

lemma wf_empty: "wf_graph empty_graph"
  by (simp add: wf_graph_def has_edge_iff empty_graph_def)

lemma wf_add_node: "wf_graph g \<Longrightarrow> wf_graph (add_node v g)"
  unfolding wf_graph_def has_edge_iff edges_add_node set_nodes_add_node by blast

lemma wf_add_edge: "wf_graph g \<Longrightarrow> wf_graph (add_edge u v d g)"
  unfolding wf_graph_def has_edge_add_edge set_nodes_add_edge by blast

lemma wf_inner:
  "wf_graph g \<Longrightarrow> wf_graph (foldl (\<lambda>g j. if c j then add_edge a (f j) (w j) g else g) g js)"
  by (induction js arbitrary: g) (simp_all add: wf_add_edge)

lemma wf_outer:
  "wf_graph g \<Longrightarrow>
   wf_graph (foldl (\<lambda>g i. foldl (\<lambda>g j. if c i j then add_edge (a i) (f j) (w i j) g else g)
                                  (add_node (a i) g) (js i)) g is)"
proof (induction "is" arbitrary: g)
  case Nil
  then show ?case by simp
next
  case (Cons i "is")
  have "wf_graph (foldl (\<lambda>g j. if c i j then add_edge (a i) (f j) (w i j) g else g)
                        (add_node (a i) g) (js i))"
    using Cons.prems by (intro wf_inner wf_add_node)
  then show ?case using Cons.IH by simp
qed

lemma wf_draw_edges: "wf_graph (draw_edges planets rbf bern)"
  unfolding draw_edges_def
  using wf_outer[OF wf_empty, of "\<lambda>i j. bern i j < rbf" "\<lambda>i. planets ! i" "\<lambda>j. planets ! j"
      "\<lambda>i j. planet_distance (planets ! i) (planets ! j)" "\<lambda>i. [0..<i]" "[0..<length planets]"]
  by simp

lemma wf_reconnect: "reconnect pick k g = Inr g' \<Longrightarrow> wf_graph g \<Longrightarrow> wf_graph g'"
proof (induction pick k g rule: reconnect.induct)
  case (1 pick k g)
  show ?case
  proof (cases "connected_components g")
    case Nil
    then show ?thesis using "1.prems" by (simp add: reconnect.simps)
  next
    case (Cons c0 cs)
    note c0 = this
    show ?thesis
    proof (cases cs)
      case Nil
      then show ?thesis using c0 "1.prems" by (simp add: reconnect.simps)
    next
      case (Cons c1 rest)
      from "1.prems"(1) c0 Cons obtain a b where a: "py_choice (fst (pick k)) c0 = Inr a"
        and b: "py_choice (snd (pick k)) c1 = Inr b"
        and r: "reconnect pick (Suc k) (add_edge a b (planet_distance a b) g) = Inr g'"
        by (auto simp: reconnect.simps split: sum.splits)
      show ?thesis
        using "1.IH"[OF c0 Cons a b r] "1.prems"(2) by (simp add: wf_add_edge)
    qed
  qed
qed

lemma adj_list_iff:
  "(v, d) \<in> set (concat (map (\<lambda>((a, b), d). if a = u then [(b, d)]
                                     else if b = u then [(a, d)] else []) es))
   \<longleftrightarrow> ((u, v), d) \<in> set es \<or> ((v, u), d) \<in> set es"
proof (induction es)
  case Nil
  then show ?case by simp
next
  case (Cons e es)
  obtain a b d' where e: "e = ((a, b), d')" by (metis prod.collapse)
  show ?case unfolding e using Cons.IH by (cases "a = u"; cases "b = u") auto
qed

lemma adj_iff:
  "(v, d) \<in> set (adj g u) \<longleftrightarrow> ((u, v), d) \<in> set (g_edges g) \<or> ((v, u), d) \<in> set (g_edges g)"
  unfolding adj_def by (rule adj_list_iff)

lemma nx_edges_iff:
  "((u, v), d) \<in> set (nx_edges g) \<longleftrightarrow>
     (\<exists>k < length (g_nodes g). u = g_nodes g ! k \<and> v \<notin> set (take k (g_nodes g))
        \<and> (v, d) \<in> set (adj g u))"
  unfolding nx_edges_def Let_def by (auto simp: Bex_def)

lemma nx_edges_sound: "(u, v) \<in> fst ` set (nx_edges g) \<Longrightarrow> has_edge g u v"
proof -
  assume "(u, v) \<in> fst ` set (nx_edges g)"
  then obtain d where "((u, v), d) \<in> set (nx_edges g)" by force
  then have "(v, d) \<in> set (adj g u)" unfolding nx_edges_iff by blast
  then have "((u, v), d) \<in> set (g_edges g) \<or> ((v, u), d) \<in> set (g_edges g)"
    unfolding adj_iff .
  then show ?thesis unfolding has_edge_iff by force
qed

lemma first_index:
  assumes "x \<in> set xs"
  shows "\<exists>k < length xs. xs ! k = x \<and> x \<notin> set (take k xs)"
proof -
  from assms obtain ys zs where s: "xs = ys @ x # zs" "x \<notin> set ys"
    by (meson split_list_first)
  then have "length ys < length xs" "xs ! length ys = x" "take (length ys) xs = ys" by simp_all
  then show ?thesis using s(2) by metis
qed

lemma nx_edges_complete:
  assumes wf: "wf_graph g" and e: "has_edge g u v"
  shows "(u, v) \<in> fst ` set (nx_edges g) \<or> (v, u) \<in> fst ` set (nx_edges g)"
proof -
  from e obtain d where d: "((u, v), d) \<in> set (g_edges g) \<or> ((v, u), d) \<in> set (g_edges g)"
    unfolding has_edge_iff by force
  have uv: "u \<in> set (g_nodes g)" "v \<in> set (g_nodes g)" using wf e unfolding wf_graph_def by blast+
  obtain i where i: "i < length (g_nodes g)" "g_nodes g ! i = u" "u \<notin> set (take i (g_nodes g))"
    using first_index[OF uv(1)] by blast
  obtain j where j: "j < length (g_nodes g)" "g_nodes g ! j = v" "v \<notin> set (take j (g_nodes g))"
    using first_index[OF uv(2)] by blast
  show ?thesis
  proof (cases "i \<le> j")
    case True
    have "v \<notin> set (take i (g_nodes g))"
      using j(3) True by (metis in_set_takeD take_take min.absorb1)
    moreover have "(v, d) \<in> set (adj g u)" unfolding adj_iff using d .
    ultimately have "((u, v), d) \<in> set (nx_edges g)"
      unfolding nx_edges_iff using i by blast
    then show ?thesis by force
  next
    case False
    then have "j \<le> i" by simp
    have "u \<notin> set (take j (g_nodes g))"
      using i(3) \<open>j \<le> i\<close> by (metis in_set_takeD take_take min.absorb1)
    moreover have "(u, d) \<in> set (adj g v)" unfolding adj_iff using d by blast
    ultimately have "((v, u), d) \<in> set (nx_edges g)"
      unfolding nx_edges_iff using j by blast
    then show ?thesis by force
  qed
qed

lemma copy_edges_roads:
  "foldl copy_edge (g, sm) es = (g', sm') \<Longrightarrow>
   roads g' = roads g \<union> fst ` set es \<union> (fst ` set es)\<inverse>"
proof (induction es arbitrary: g sm)
  case Nil
  then show ?case by simp
next
  case (Cons e es)
  obtain u v d where e: "e = ((u, v), d)" by (metis prod.collapse)
  have "foldl copy_edge (add_edge u v d g, sm((u, v) \<mapsto> 1, (v, u) \<mapsto> 1)) es = (g', sm')"
    using Cons.prems e by simp
  then have "roads g' = roads (add_edge u v d g) \<union> fst ` set es \<union> (fst ` set es)\<inverse>"
    by (rule Cons.IH)
  moreover have "roads (add_edge u v d g) = roads g \<union> {(u, v), (v, u)}"
    unfolding roads_def has_edge_add_edge by auto
  ultimately show ?case using e by auto
qed

lemma init_roads:
  assumes "SpaceRoadNetwork_init planets rbf bern pick = Inr e"
  shows "roads (current_graph e) = roads (initial_graph e)"
proof -
  from assms obtain g cg sm where g: "reconnect pick 0 (draw_edges planets rbf bern) = Inr g"
    and f: "foldl copy_edge (empty_graph, Map.empty) (nx_edges g) = (cg, sm)"
    and e: "e = \<lparr> initial_graph = g, current_graph = cg, speed_modificator = sm \<rparr>"
    by (auto simp: SpaceRoadNetwork_init_def Let_def split: sum.splits prod.splits)
  have wf: "wf_graph g" using g wf_draw_edges by (rule wf_reconnect)
  have "roads (empty_graph :: planet nxgraph) = {}"
    by (simp add: roads_def has_edge_iff empty_graph_def)
  then have cg: "roads cg = fst ` set (nx_edges g) \<union> (fst ` set (nx_edges g))\<inverse>"
    using copy_edges_roads[OF f] by simp
  have "roads cg = roads g"
  proof (rule set_eqI)
    fix p :: "planet \<times> planet"
    obtain u v where p: "p = (u, v)" by (cases p)
    have "p \<in> roads cg \<Longrightarrow> p \<in> roads g"
    proof -
      assume "p \<in> roads cg"
      then have "(u, v) \<in> fst ` set (nx_edges g) \<or> (v, u) \<in> fst ` set (nx_edges g)"
        unfolding cg p by blast
      then have "has_edge g u v \<or> has_edge g v u"
        using nx_edges_sound[of u v g] nx_edges_sound[of v u g] by blast
      then have "has_edge g u v" unfolding has_edge_iff by blast
      then show "p \<in> roads g" unfolding roads_def p by simp
    qed
    moreover have "p \<in> roads g \<Longrightarrow> p \<in> roads cg"
    proof -
      assume "p \<in> roads g"
      then have "has_edge g u v" unfolding roads_def p by simp
      then have "(u, v) \<in> fst ` set (nx_edges g) \<or> (v, u) \<in> fst ` set (nx_edges g)"
        using wf by (intro nx_edges_complete)
      then show "p \<in> roads cg" unfolding cg p by blast
    qed
    ultimately show "p \<in> roads cg \<longleftrightarrow> p \<in> roads g" by blast
  qed
  then show ?thesis using e by simp
qed

lemmas network_eval =
  SpaceRoadNetwork_init_def draw_edges_def reconnect.simps connected_components_def labels_def
  firsts_def add_edge_def add_node_def has_edge_def same_edge_def empty_graph_def nx_edges_def
  adj_def upt_rec py_choice_def planet_distance_def SpaceRoadNetwork_step_def road_states_def
  PROBA_ISSUE_ROAD_def Let_def

text \<open>
  C5. For every non-empty list of planets, every branching factor and every outcome of the
  random source, the constructor returns (the reconnection loop terminates: \<open>reconnect\<close>
  is a total function), all planets are nodes of the initial graph, the initial graph has
  exactly one connected component, and in every later state the two graphs are the ones
  built by the constructor, every two planets are joined by a path of roads in both, and
  the next step returns.
\<close>

theorem network_connected:
  assumes "planets \<noteq> []"
  shows "\<exists>e. SpaceRoadNetwork_init planets rbf bern pick = Inr e
     \<and> set (g_nodes (initial_graph e)) = set planets
     \<and> length (connected_components (initial_graph e)) = 1
     \<and> (\<forall>e'. evolves e e' \<longrightarrow>
           initial_graph e' = initial_graph e \<and> current_graph e' = current_graph e
           \<and> (\<forall>p\<in>set planets. \<forall>q\<in>set planets.
                 (p, q) \<in> conn (initial_graph e') \<and> (p, q) \<in> conn (current_graph e'))
           \<and> (\<forall>rnd. \<exists>e2. SpaceRoadNetwork_step rnd e' = Inr e2))"
proof -
  have "g_nodes (draw_edges planets rbf bern) \<noteq> []"
    using assms set_nodes_draw_edges[of planets rbf bern] by (metis set_empty)
  then obtain g where g: "reconnect pick 0 (draw_edges planets rbf bern) = Inr g"
    using reconnect_total by blast
  obtain cg sm where f: "foldl copy_edge (empty_graph, Map.empty) (nx_edges g) = (cg, sm)"
    by (metis surj_pair)
  define e where "e = \<lparr> initial_graph = g, current_graph = cg, speed_modificator = sm \<rparr>"
  have init: "SpaceRoadNetwork_init planets rbf bern pick = Inr e"
    using g f by (simp add: SpaceRoadNetwork_init_def e_def)
  have one: "length (connected_components g) = 1" and nodes: "set (g_nodes g) = set planets"
    using reconnect_result[OF g] set_nodes_draw_edges[of planets rbf bern] by simp_all
  have conn_g: "(p, q) \<in> conn g" if "p \<in> set planets" "q \<in> set planets" for p q
    using one that unfolding nodes[symmetric] by (rule one_component_conn)
  have conn_cg: "conn cg = conn g"
    using init_roads[OF init] unfolding conn_roads by (simp add: e_def)
  have ok: "speed_ok (speed_modificator e)" using init_inv[OF init] by blast
  have later: "initial_graph e' = initial_graph e \<and> current_graph e' = current_graph e
           \<and> (\<forall>p\<in>set planets. \<forall>q\<in>set planets.
                 (p, q) \<in> conn (initial_graph e') \<and> (p, q) \<in> conn (current_graph e'))
           \<and> (\<forall>rnd. \<exists>e2. SpaceRoadNetwork_step rnd e' = Inr e2)" if ev: "evolves e e'" for e'
  proof -
    have inv: "speed_ok (speed_modificator e')" "initial_graph e' = initial_graph e"
      "current_graph e' = current_graph e"
      using evolves_inv[OF ev ok] by blast+
    have "\<exists>e2. SpaceRoadNetwork_step rnd e' = Inr e2" for rnd
      using step_inv[OF inv(1), of rnd] by blast
    moreover have "(p, q) \<in> conn (initial_graph e') \<and> (p, q) \<in> conn (current_graph e')"
      if "p \<in> set planets" "q \<in> set planets" for p q
      using conn_g[OF that] conn_cg inv(2,3) by (simp add: e_def)
    ultimately show ?thesis using inv(2,3) by blast
  qed
  have "initial_graph e = g" by (simp add: e_def)
  then have "SpaceRoadNetwork_init planets rbf bern pick = Inr e
     \<and> set (g_nodes (initial_graph e)) = set planets
     \<and> length (connected_components (initial_graph e)) = 1"
    using init one nodes by simp
  moreover have "\<forall>e'. evolves e e' \<longrightarrow>
           initial_graph e' = initial_graph e \<and> current_graph e' = current_graph e
           \<and> (\<forall>p\<in>set planets. \<forall>q\<in>set planets.
                 (p, q) \<in> conn (initial_graph e') \<and> (p, q) \<in> conn (current_graph e'))
           \<and> (\<forall>rnd. \<exists>e2. SpaceRoadNetwork_step rnd e' = Inr e2)"
    using later by (intro allI impI)
  ultimately show ?thesis by (intro exI[of _ e] conjI) (elim conjE, assumption)+
qed

text \<open>Three planets and branching factor 0: no random edge, and two rounds of the
  reconnection loop join the second and the third planet to the first.\<close>

lemma init_three_planets:
  "SpaceRoadNetwork_init [p0, p1, p2] 0 (\<lambda>i j. 1 / 2) (\<lambda>k. (0, 0)) =
     Inr \<lparr> initial_graph =
             \<lparr> g_nodes = [p0, p1, p2],
               g_edges = [((p0, p1), planet_distance p0 p1), ((p0, p2), planet_distance p0 p2)] \<rparr>,
           current_graph =
             \<lparr> g_nodes = [p0, p1, p2],
               g_edges = [((p0, p1), planet_distance p0 p1), ((p0, p2), planet_distance p0 p2)] \<rparr>,
           speed_modificator =
             [(p0, p1) \<mapsto> 1, (p1, p0) \<mapsto> 1, (p0, p2) \<mapsto> 1, (p2, p0) \<mapsto> 1] \<rparr>"
  by (simp add: network_eval p0_def p1_def p2_def)

theorem network_connected_witness:
  "[p0, p1, p2] \<noteq> [] \<and>
   (\<exists>e. SpaceRoadNetwork_init [p0, p1, p2] 0 (\<lambda>i j. 1 / 2) (\<lambda>k. (0, 0)) = Inr e
      \<and> map fst (g_edges (initial_graph e)) = [(p0, p1), (p0, p2)]
      \<and> length (connected_components (initial_graph e)) = 1
      \<and> (p1, p2) \<in> conn (initial_graph e) \<and> (p1, p2) \<in> conn (current_graph e))"
proof -
  have ne: "[p0, p1, p2] \<noteq> []" by simp
  from network_connected[OF ne, of 0 "\<lambda>i j. 1 / 2" "\<lambda>k. (0, 0)"]
  obtain e where e1: "SpaceRoadNetwork_init [p0, p1, p2] 0 (\<lambda>i j. 1 / 2) (\<lambda>k. (0, 0)) = Inr e"
    and e2: "length (connected_components (initial_graph e)) = 1"
    and e3: "\<forall>e'. evolves e e' \<longrightarrow>
           initial_graph e' = initial_graph e \<and> current_graph e' = current_graph e
           \<and> (\<forall>p\<in>set [p0, p1, p2]. \<forall>q\<in>set [p0, p1, p2].
                 (p, q) \<in> conn (initial_graph e') \<and> (p, q) \<in> conn (current_graph e'))
           \<and> (\<forall>rnd. \<exists>e2. SpaceRoadNetwork_step rnd e' = Inr e2)"
    by (elim exE conjE)
  have "evolves e e" by (rule evolves.start)
  with e3 have "\<forall>p\<in>set [p0, p1, p2]. \<forall>q\<in>set [p0, p1, p2].
                 (p, q) \<in> conn (initial_graph e) \<and> (p, q) \<in> conn (current_graph e)"
    by blast
  then have c: "(p1, p2) \<in> conn (initial_graph e) \<and> (p1, p2) \<in> conn (current_graph e)"
    by simp
  have "map fst (g_edges (initial_graph e)) = [(p0, p1), (p0, p2)]"
    using e1 unfolding init_three_planets by auto
  then show ?thesis using e1 e2 c ne by (intro conjI exI[of _ e]) simp_all
qed

lemma init_two_planets:
  "SpaceRoadNetwork_init [p0, p1] 1 (\<lambda>i j. 0) (\<lambda>k. (0, 0)) = Inr (two_planet_network 1)"
  by (simp add: network_eval p0_def p1_def two_planet_network_def two_planet_roads_def)

lemma step_two_planets:
  "SpaceRoadNetwork_step (\<lambda>k. (1 / 100, c)) (two_planet_network x)
     = Inr (two_planet_network (road_states ! (c mod 3)))"
  by (simp add: network_eval p0_def p1_def two_planet_network_def two_planet_roads_def)

text \<open>
  C3. The step is claimed never to resample a multiplier to its previous value. In the
  loop \<open>for road, state in self.current_graph.edges.items()\<close> the variable \<open>state\<close> is
  the attribute dictionary of the edge, not its multiplier, so the filter
  \<open>n != state\<close> keeps all three values. On the network of two planets, whose only road
  has multiplier \<open>1.0\<close>, a draw below \<open>PROBA_ISSUE_ROAD\<close> and the choice of the third
  candidate write \<open>1.0\<close> again: the step returns the network it started from.
\<close>

theorem road_resampled_to_previous_value:
  "SpaceRoadNetwork_init [p0, p1] 1 (\<lambda>i j. 0) (\<lambda>k. (0, 0)) = Inr (two_planet_network 1)
   \<and> map fst (nx_edges (current_graph (two_planet_network 1))) = [(p0, p1)]
   \<and> filter (\<lambda>n. py_ne (PyFloat n) (PyDict [(''distance'', planet_distance p1 p0)])) road_states
       = [0, 1 / 2, 1]
   \<and> SpaceRoadNetwork_step (\<lambda>k. (1 / 100, 2)) (two_planet_network 1)
       = Inr (two_planet_network 1)"
proof -
  have "map fst (nx_edges (current_graph (two_planet_network 1))) = [(p0, p1)]"
    by (simp add: network_eval p0_def p1_def two_planet_network_def two_planet_roads_def)
  moreover have "SpaceRoadNetwork_step (\<lambda>k. (1 / 100, 2)) (two_planet_network 1)
       = Inr (two_planet_network 1)"
    unfolding step_two_planets by (simp add: road_states_def)
  ultimately show ?thesis
    using init_two_planets by (simp add: road_states_def)
qed

text \<open>The road between the two planets after one step that sets its multiplier to
  \<open>0.0\<close>.\<close>

theorem speed_symmetric_witness:
  "SpaceRoadNetwork_init [p0, p1] 1 (\<lambda>i j. 0) (\<lambda>k. (0, 0)) = Inr (two_planet_network 1)
   \<and> evolves (two_planet_network 1) (two_planet_network 0)
   \<and> has_edge (current_graph (two_planet_network 0)) p1 p0
   \<and> speed_modificator (two_planet_network 0) (p1, p0) = speed_modificator (two_planet_network 0) (p0, p1)
   \<and> speed_modificator (two_planet_network 0) (p1, p0) \<in> {Some 0, Some (1 / 2), Some 1}"
proof -
  have s: "SpaceRoadNetwork_step (\<lambda>k. (1 / 100, 0)) (two_planet_network 1) = Inr (two_planet_network 0)"
    unfolding step_two_planets by (simp add: road_states_def)
  have ev: "evolves (two_planet_network 1) (two_planet_network 0)"
    using evolves.start s by (rule evolves.tick)
  have road: "has_edge (current_graph (two_planet_network 0)) p1 p0"
    by (simp add: two_planet_network_def two_planet_roads_def has_edge_def same_edge_def)
  show ?thesis
    using speed_symmetric[OF init_two_planets ev road] init_two_planets ev road by blast
qed

subsection \<open>Ships\<close>

lemma norm2_scaled:
  assumes "norm2 (dx, dy) \<noteq> 0"
  shows "norm2 (speed * dx / norm2 (dx, dy), speed * dy / norm2 (dx, dy)) = \<bar>speed\<bar>"
proof -
  let ?n = "norm2 (dx, dy)"
  have n2: "?n\<^sup>2 = dx\<^sup>2 + dy\<^sup>2" by (simp add: norm2_def)
  have "(speed * dx / ?n)\<^sup>2 + (speed * dy / ?n)\<^sup>2 = speed\<^sup>2 * (dx\<^sup>2 + dy\<^sup>2) / ?n\<^sup>2"
    by (simp add: power_mult_distrib power_divide algebra_simps add_divide_distrib)
  also have "\<dots> = speed\<^sup>2"
  proof -
    have "?n\<^sup>2 \<noteq> 0" using assms by simp
    then show ?thesis unfolding n2[symmetric] by simp
  qed
  finally show ?thesis by (simp add: norm2_def)
qed

lemma move_to_arrives:
  assumes "norm2 (px dest - s_x s, py dest - s_y s) \<noteq> 0"
    and "norm2 (px dest - s_x s, py dest - s_y s) < \<bar>speed\<bar>"
  shows "move_to s dest speed = Inr (px dest, py dest)"
  using assms by (simp add: move_to_def Let_def norm2_scaled)

lemma items_remove_first:
  assumes "items_remove i js = Inr ks"
  shows "\<exists>ys j zs. js = ys @ j # zs \<and> uid j = uid i \<and> ks = ys @ zs
           \<and> list_all (\<lambda>y. uid y \<noteq> uid i) ys"
  using assms
proof (induction js arbitrary: ks)
  case Nil
  then show ?case by simp
next
  case (Cons j js)
  show ?case
  proof (cases "uid j = uid i")
    case True
    then have "ks = js" using Cons.prems by (simp add: item_eq_def)
    then show ?thesis using True by (intro exI[of _ "[]"] exI[of _ j] exI[of _ js]) simp
  next
    case False
    then obtain ks' where r: "items_remove i js = Inr ks'" "ks = j # ks'"
      using Cons.prems by (auto simp: item_eq_def split: sum.splits)
    from Cons.IH[OF r(1)] obtain ys j' zs where "js = ys @ j' # zs" "uid j' = uid i"
      "ks' = ys @ zs" "list_all (\<lambda>y. uid y \<noteq> uid i) ys" by blast
    then show ?thesis using False r(2)
      by (intro exI[of _ "j # ys"] exI[of _ j'] exI[of _ zs]) simp
  qed
qed

lemma items_remove_present:
  "list_ex (\<lambda>j. uid j = uid i) js \<Longrightarrow> \<exists>ks. items_remove i js = Inr ks"
  by (induction js) (auto simp: item_eq_def)

lemma move_to_waypoint_upd: "move_to (s\<lparr>waypoint := x\<rparr>) d v = move_to s d v"
  by (simp add: move_to_def Let_def)

text \<open>
  C8. A ship that carries an item and whose move ends exactly on its waypoint, the
  waypoint being its destination, delivers: the first element of \<open>model.items\<close> with
  the item's unique id is removed (\<open>list.remove\<close> compares with \<open>Item.__eq__\<close>, and
  the ship holds a copy), \<open>computed_items_nb\<close> grows by one, the ship's item,
  destination and waypoint become \<open>None\<close>, its position and previous point are the
  destination planet, and every other field of the ship is as before. The movement reads
  and writes nothing but the ship and these two fields of the model. With an empty
  mailbox this is the result of the whole \<open>Ship.step\<close>.
\<close>

theorem delivery_on_arrival:
  assumes wp: "waypoint s = Some d \<or> (waypoint s = None \<and> route (previous_point s) (Some d) = Inr d)"
    and dest: "destination s = Some d"
    and carried: "s_item s = Some it"
    and speed: "sm (previous_point s, d) = Some f"
    and arrive: "move_to s d (max_speed s * f) = Inr (px d, py d)"
    and listed: "list_ex (\<lambda>j. uid j = uid it) (items w)"
  shows "\<exists>ys j zs. items w = ys @ j # zs \<and> uid j = uid it
            \<and> list_all (\<lambda>y. uid y \<noteq> uid it) ys
            \<and> ship_move route sm s w =
                 Inr (s\<lparr> s_x := px d, s_y := py d, previous_point := d, waypoint := None,
                         destination := None, s_item := None \<rparr>,
                      w\<lparr> items := ys @ zs, computed_items_nb := computed_items_nb w + 1 \<rparr>)
            \<and> Ship_step route sm steps rs [] s w =
                 Inr (s\<lparr> s_x := px d, s_y := py d, previous_point := d, waypoint := None,
                         destination := None, s_item := None \<rparr>,
                      w\<lparr> items := ys @ zs, computed_items_nb := computed_items_nb w + 1 \<rparr>,
                      [])"
proof -
  let ?it = "it\<lparr>it_x := px d, it_y := py d\<rparr>"
  have "list_ex (\<lambda>j. uid j = uid ?it) (items w)" using listed by simp
  then obtain ks where ks: "items_remove ?it (items w) = Inr ks"
    using items_remove_present by blast
  from items_remove_first[OF ks] obtain ys j zs where split: "items w = ys @ j # zs"
    "uid j = uid it" "ks = ys @ zs" "list_all (\<lambda>y. uid y \<noteq> uid it) ys"
    by auto
  define s1 where "s1 = s\<lparr>waypoint := Some d\<rparr>"
  have first: "(if waypoint s = None \<and> destination s \<noteq> None
            then (case route (previous_point s) (destination s) of
                    Inl e \<Rightarrow> Inl e
                  | Inr p \<Rightarrow> Inr (s\<lparr>waypoint := Some p\<rparr>))
            else Inr s) = Inr s1"
    using wp dest by (auto simp: s1_def)
  have m: "move_to s1 d (max_speed s1 * f) = Inr (px d, py d)"
    using arrive by (simp add: s1_def move_to_waypoint_upd)
  have mv: "ship_move route sm s w =
      Inr (s\<lparr> s_x := px d, s_y := py d, previous_point := d, waypoint := None,
              destination := None, s_item := None \<rparr>,
           w\<lparr> items := ys @ zs, computed_items_nb := computed_items_nb w + 1 \<rparr>)"
    unfolding ship_move_def first
    using m speed carried dest ks split(3) by (simp add: s1_def Let_def)
  then have "Ship_step route sm steps rs [] s w =
      Inr (s\<lparr> s_x := px d, s_y := py d, previous_point := d, waypoint := None,
              destination := None, s_item := None \<rparr>,
           w\<lparr> items := ys @ zs, computed_items_nb := computed_items_nb w + 1 \<rparr>, [])"
    by (simp add: Ship_step_def)
  with mv split show ?thesis by blast
qed

lemma norm2_3_4: "norm2 (3, 4) = 5"
proof -
  have "sqrt 25 = 5" by (rule real_sqrt_unique) simp_all
  then show ?thesis by (simp add: norm2_def)
qed

lemma carrier_arrives: "move_to carrier p1 (max_speed carrier * 1) = Inr (px p1, py p1)"
  by (rule move_to_arrives) (simp_all add: carrier_def idle_ship_def p0_def p1_def norm2_3_4)

theorem delivery_on_arrival_witness:
  "waypoint carrier = Some p1 \<and> destination carrier = Some p1 \<and> s_item carrier = Some cargo
   \<and> move_to carrier p1 (max_speed carrier * 1) = Inr (px p1, py p1)
   \<and> ship_move no_route [(p0, p1) \<mapsto> 1] carrier \<lparr> items = [other_item, cargo], computed_items_nb = 2 \<rparr>
       = Inr (idle_ship\<lparr> s_x := 3, s_y := 4, previous_point := p1 \<rparr>,
              \<lparr> items = [other_item], computed_items_nb = 3 \<rparr>)"
proof -
  let ?w = "\<lparr> items = [other_item, cargo], computed_items_nb = 2 \<rparr>"
  let ?sm = "[(p0, p1) \<mapsto> (1::real)]"
  have h1: "waypoint carrier = Some p1 \<or>
      (waypoint carrier = None \<and> no_route (previous_point carrier) (Some p1) = Inr p1)"
    by (simp add: carrier_def)
  have h2: "destination carrier = Some p1" by (simp add: carrier_def)
  have h3: "s_item carrier = Some cargo" by (simp add: carrier_def)
  have h4: "?sm (previous_point carrier, p1) = Some 1" by (simp add: carrier_def idle_ship_def)
  have h5: "list_ex (\<lambda>j. uid j = uid cargo) (items ?w)"
    by (simp add: cargo_def other_item_def)
  from delivery_on_arrival[where s = carrier and d = p1 and route = no_route and sm = ?sm
      and it = cargo and f = 1 and w = ?w and steps = 0 and rs = "\<lambda>k. spare_rand",
      OF h1 h2 h3 h4 carrier_arrives h5]
  obtain ys j zs where split: "items ?w = ys @ j # zs" "uid j = uid cargo"
    "list_all (\<lambda>y. uid y \<noteq> uid cargo) ys"
    and mv: "ship_move no_route ?sm carrier ?w =
       Inr (carrier\<lparr> s_x := px p1, s_y := py p1, previous_point := p1, waypoint := None,
                     destination := None, s_item := None \<rparr>,
            ?w\<lparr> items := ys @ zs, computed_items_nb := computed_items_nb ?w + 1 \<rparr>)"
    by blast
  have "ys = [other_item] \<and> zs = []"
    using split by (auto simp: Cons_eq_append_conv cargo_def other_item_def)
  then show ?thesis
    using mv h2 h3 carrier_arrives by (simp add: carrier_def idle_ship_def p1_def)
qed

lemma handle_not_answer_busy:
  assumes "\<not> is_answer m" "s_waiting_for_proposal s \<or> s_item s \<noteq> None"
  shows "handle_message steps r m s = Inr (s, [])"
  using assms
  by (auto simp: handle_message_def on_cfp_def on_reject_def on_accept_def is_answer_def)

lemma ship_messages_busy:
  assumes "list_all (\<lambda>m. \<not> is_answer m) ms" "s_waiting_for_proposal s \<or> s_item s \<noteq> None"
  shows "ship_messages steps rs k ms s = Inr (s, [])"
  using assms
proof (induction ms arbitrary: k)
  case Nil
  then show ?case by simp
next
  case (Cons m ms)
  have "handle_message steps (rs k) m s = Inr (s, [])"
    using Cons.prems by (intro handle_not_answer_busy) simp_all
  moreover have "ship_messages steps rs (Suc k) ms s = Inr (s, [])"
    using Cons.prems by (intro Cons.IH) simp_all
  ultimately show ?case by simp
qed

lemma handle_not_answer_out:
  assumes "\<not> is_answer m" "handle_message steps r m s = Inr (s', out)"
  shows "out = [] \<and> s' = s \<or> length out = 1 \<and> s_waiting_for_proposal s'"
  using assms
  by (auto simp: handle_message_def on_cfp_def on_reject_def on_accept_def is_answer_def Let_def
      split: if_splits sum.splits)

lemma ship_messages_one_bid:
  assumes "list_all (\<lambda>m. \<not> is_answer m) ms" "ship_messages steps rs k ms s = Inr (s', out)"
  shows "length out \<le> 1"
  using assms
proof (induction ms arbitrary: k s out)
  case Nil
  then show ?case by simp
next
  case (Cons m ms)
  from Cons.prems(2) obtain s1 out1 out2 where h: "handle_message steps (rs k) m s = Inr (s1, out1)"
    and r: "ship_messages steps rs (Suc k) ms s1 = Inr (s', out2)" and o: "out = out1 @ out2"
    by (auto split: sum.splits)
  have na: "\<not> is_answer m" "list_all (\<lambda>m. \<not> is_answer m) ms" using Cons.prems(1) by simp_all
  from handle_not_answer_out[OF na(1) h]
  show ?case
  proof
    assume "out1 = [] \<and> s1 = s"
    then show ?thesis using Cons.IH[OF na(2) r] o by simp
  next
    assume a: "length out1 = 1 \<and> s_waiting_for_proposal s1"
    then have "ship_messages steps rs (Suc k) ms s1 = Inr (s1, [])"
      using na(2) by (intro ship_messages_busy) simp_all
    then have "out2 = []" using r by simp
    then show ?thesis using a o by simp
  qed
qed

text \<open>One call for proposals that names a known planet as destination: the ship answers
  exactly when it carries no item and is not waiting for an answer; the bid goes to the
  sender of the call and carries the deserialised item, the destination and the utility
  of the deserialised item, and sending it sets the waiting flag. As long as no accept or
  reject arrives, a ship that carries an item or waits sends nothing and keeps its state,
  so a batch that starts with the call yields at most one bid, and exactly one from an
  idle ship.\<close>

lemma ship_bids_iff_idle:
  assumes cfp: "performative m = ''call_for_proposal''"
    and fx: "body_field m 1 = Inr X" and fy: "body_field m 2 = Inr Y"
    and known: "planet_at (s_planets s) X Y = Inr p"
  shows "handle_message steps r m s =
           (if s_item s = None \<and> \<not> s_waiting_for_proposal s
            then Inr (s\<lparr> potential_destination := Some p, s_waiting_for_proposal := True \<rparr>,
                      [\<lparr> m_to = m_sender m, m_sender = m_to m,
                         m_item = from_json (m_item m) r,
                         m_fields = [X, Y,
                           it_a (from_json (m_item m) r) * preference_a s
                           + it_b (from_json (m_item m) r) * preference_b s
                           + it_c (from_json (m_item m) r) * preference_c s],
                         performative = ''proposal'', turn = steps \<rparr>])
            else Inr (s, []))
         \<and> (\<forall>ms rs k. list_all (\<lambda>m. \<not> is_answer m) ms \<longrightarrow>
               (s_item s \<noteq> None \<or> s_waiting_for_proposal s \<longrightarrow>
                  ship_messages steps rs k ms s = Inr (s, []))
               \<and> (\<forall>s' out. ship_messages steps rs k (m # ms) s = Inr (s', out) \<longrightarrow>
                     length out \<le> 1 \<and> (s_item s = None \<and> \<not> s_waiting_for_proposal s \<longrightarrow>
                        length out = 1 \<and> s_waiting_for_proposal s' \<and> s_item s' = None)))"
proof -
  have one: "handle_message steps r m s =
           (if s_item s = None \<and> \<not> s_waiting_for_proposal s
            then Inr (s\<lparr> potential_destination := Some p, s_waiting_for_proposal := True \<rparr>,
                      [\<lparr> m_to = m_sender m, m_sender = m_to m,
                         m_item = from_json (m_item m) r,
                         m_fields = [X, Y,
                           it_a (from_json (m_item m) r) * preference_a s
                           + it_b (from_json (m_item m) r) * preference_b s
                           + it_c (from_json (m_item m) r) * preference_c s],
                         performative = ''proposal'', turn = steps \<rparr>])
            else Inr (s, []))" for r
    using cfp fx fy known
    by (simp add: handle_message_def on_cfp_def on_reject_def on_accept_def utility_def Let_def)
  have na: "\<not> is_answer m" using cfp by (simp add: is_answer_def)
  have batch: "(s_item s \<noteq> None \<or> s_waiting_for_proposal s \<longrightarrow>
                  ship_messages steps rs k ms s = Inr (s, []))
               \<and> (\<forall>s' out. ship_messages steps rs k (m # ms) s = Inr (s', out) \<longrightarrow>
                     length out \<le> 1 \<and> (s_item s = None \<and> \<not> s_waiting_for_proposal s \<longrightarrow>
                        length out = 1 \<and> s_waiting_for_proposal s' \<and> s_item s' = None))"
    if ms: "list_all (\<lambda>m. \<not> is_answer m) ms" for ms rs k
  proof -
    have busy: "s_item s \<noteq> None \<or> s_waiting_for_proposal s \<longrightarrow>
                  ship_messages steps rs k ms s = Inr (s, [])"
    proof
      assume "s_item s \<noteq> None \<or> s_waiting_for_proposal s"
      then show "ship_messages steps rs k ms s = Inr (s, [])"
        using ms by (intro ship_messages_busy) auto
    qed
    have bids: "\<forall>s' out. ship_messages steps rs k (m # ms) s = Inr (s', out) \<longrightarrow>
                     length out \<le> 1 \<and> (s_item s = None \<and> \<not> s_waiting_for_proposal s \<longrightarrow>
                        length out = 1 \<and> s_waiting_for_proposal s' \<and> s_item s' = None)"
    proof (intro allI impI)
      fix s' out assume r: "ship_messages steps rs k (m # ms) s = Inr (s', out)"
      have "list_all (\<lambda>m. \<not> is_answer m) (m # ms)" using na ms by simp
      then have le: "length out \<le> 1" using r by (rule ship_messages_one_bid)
      have "length out = 1 \<and> s_waiting_for_proposal s' \<and> s_item s' = None"
        if idle: "s_item s = None \<and> \<not> s_waiting_for_proposal s"
      proof -
        let ?s1 = "s\<lparr> potential_destination := Some p, s_waiting_for_proposal := True \<rparr>"
        have rest: "ship_messages steps rs (Suc k) ms ?s1 = Inr (?s1, [])"
          using ms by (intro ship_messages_busy) simp_all
        have "s' = ?s1 \<and> length out = 1"
          using r idle rest by (auto simp: one[of "rs k"])
        then show ?thesis using idle by simp
      qed
      with le show "length out \<le> 1 \<and> (s_item s = None \<and> \<not> s_waiting_for_proposal s \<longrightarrow>
                        length out = 1 \<and> s_waiting_for_proposal s' \<and> s_item s' = None)"
        by blast
    qed
    from busy bids show ?thesis by (rule conjI)
  qed
  show ?thesis using one[of r] batch by blast
qed

lemma ship_bids_iff_idle_example:
  "performative cfp_cargo = ''call_for_proposal''
   \<and> planet_at (s_planets idle_ship) 3 4 = Inr p1
   \<and> handle_message 0 spare_rand cfp_cargo idle_ship =
         Inr (idle_ship\<lparr> potential_destination := Some p1, s_waiting_for_proposal := True \<rparr>,
              [bid_cargo])
   \<and> ship_messages 0 (\<lambda>k. spare_rand) 0 [cfp_cargo, cfp_cargo] idle_ship =
         Inr (idle_ship\<lparr> potential_destination := Some p1, s_waiting_for_proposal := True \<rparr>,
              [bid_cargo])
   \<and> handle_message 0 spare_rand cfp_cargo carrier = Inr (carrier, [])"
proof -
  have h1: "performative cfp_cargo = ''call_for_proposal''" by (simp add: cfp_cargo_def)
  have h2: "body_field cfp_cargo 1 = Inr 3" by (simp add: cfp_cargo_def body_field_def)
  have h3: "body_field cfp_cargo 2 = Inr 4" by (simp add: cfp_cargo_def body_field_def)
  have h4: "planet_at (s_planets idle_ship) 3 4 = Inr p1"
    by (simp add: idle_ship_def planet_at_def p0_def p1_def p2_def)
  have h4': "planet_at (s_planets carrier) 3 4 = Inr p1"
    using h4 by (simp add: carrier_def)
  have fj: "from_json (m_item cfp_cargo) spare_rand = cargo"
    by (simp add: cfp_cargo_def from_json_id cargo_def)
  note t = ship_bids_iff_idle[where m = cfp_cargo and X = 3 and Y = 4 and p = p1
      and steps = 0 and r = spare_rand, OF h1 h2 h3]
  have one: "handle_message 0 spare_rand cfp_cargo idle_ship =
         Inr (idle_ship\<lparr> potential_destination := Some p1, s_waiting_for_proposal := True \<rparr>,
              [bid_cargo])"
    using t[of idle_ship, OF h4] unfolding fj
    by (simp add: idle_ship_def cargo_def cfp_cargo_def bid_cargo_def)
  have busy: "handle_message 0 spare_rand cfp_cargo carrier = Inr (carrier, [])"
    using t[of carrier, OF h4'] by (simp add: carrier_def)
  have waiting: "handle_message 0 spare_rand cfp_cargo
        (idle_ship\<lparr> potential_destination := Some p1, s_waiting_for_proposal := True \<rparr>) =
      Inr (idle_ship\<lparr> potential_destination := Some p1, s_waiting_for_proposal := True \<rparr>, [])"
    using t[of "idle_ship\<lparr> potential_destination := Some p1, s_waiting_for_proposal := True \<rparr>"] h4
    by simp
  have "ship_messages 0 (\<lambda>k. spare_rand) 0 [cfp_cargo, cfp_cargo] idle_ship =
         Inr (idle_ship\<lparr> potential_destination := Some p1, s_waiting_for_proposal := True \<rparr>,
              [bid_cargo])"
    by (simp add: one waiting)
  then show ?thesis using h1 h4 one busy by simp
qed

text \<open>A ship without waypoint and destination does not move, so its step is the
  handling of its mailbox.\<close>

lemma ship_move_at_rest:
  "waypoint s = None \<Longrightarrow> destination s = None \<Longrightarrow> ship_move route sm s w = Inr (s, w)"
  by (simp add: ship_move_def)

lemma Ship_step_at_rest:
  assumes "waypoint s = None" "destination s = None"
  shows "Ship_step route sm steps rs msg_box s w =
           (case ship_messages steps rs 0 msg_box s of
              Inl e \<Rightarrow> Inl e
            | Inr (s', out) \<Rightarrow> Inr (s', w, out))"
  using assms by (simp add: Ship_step_def ship_move_at_rest)

text \<open>The whole step of a ship at rest whose mailbox starts with a call for proposals
  and holds no accept or reject: when no attribute of the offered item is zero, an idle
  ship sends one bid with the utility of the offered item and sets its waiting flag, and
  a ship that carries an item or waits sends nothing.\<close>

lemma Ship_step_bid:
  assumes rest: "waypoint s = None" "destination s = None"
    and cfp: "performative m = ''call_for_proposal''"
    and fx: "body_field m 1 = Inr X" and fy: "body_field m 2 = Inr Y"
    and known: "planet_at (s_planets s) X Y = Inr p"
    and nonzero: "it_a (m_item m) \<noteq> 0" "it_b (m_item m) \<noteq> 0" "it_c (m_item m) \<noteq> 0"
      "uid (m_item m) \<noteq> 0"
    and others: "list_all (\<lambda>m. \<not> is_answer m) ms"
  shows "Ship_step route sm steps rs (m # ms) s w =
           (if s_item s = None \<and> \<not> s_waiting_for_proposal s
            then Inr (s\<lparr> potential_destination := Some p, s_waiting_for_proposal := True \<rparr>, w,
                      [\<lparr> m_to = m_sender m, m_sender = m_to m, m_item = m_item m,
                         m_fields = [X, Y,
                           it_a (m_item m) * preference_a s + it_b (m_item m) * preference_b s
                           + it_c (m_item m) * preference_c s],
                         performative = ''proposal'', turn = steps \<rparr>])
            else Inr (s, w, []))"
proof -
  have fj: "from_json (m_item m) (rs 0) = m_item m" using nonzero by (rule from_json_id)
  note h = ship_bids_iff_idle[OF cfp fx fy known, of steps "rs 0", unfolded fj]
  have na: "list_all (\<lambda>m. \<not> is_answer m) (m # ms)" using cfp others by (simp add: is_answer_def)
  show ?thesis
  proof (cases "s_item s = None \<and> \<not> s_waiting_for_proposal s")
    case True
    let ?s1 = "s\<lparr> potential_destination := Some p, s_waiting_for_proposal := True \<rparr>"
    have "ship_messages steps rs (Suc 0) ms ?s1 = Inr (?s1, [])"
      using others by (intro ship_messages_busy) simp_all
    then show ?thesis
      using True h rest by (simp add: Ship_step_at_rest)
  next
    case False
    then have "ship_messages steps rs 0 (m # ms) s = Inr (s, [])"
      using na by (intro ship_messages_busy) auto
    then show ?thesis using False rest by (simp add: Ship_step_at_rest)
  qed
qed

text \<open>
  C7. The bid of an idle ship is claimed to carry the utility
  \<open>item.a * preference_a + item.b * preference_b + item.c * preference_c\<close> of the item
  of the call. The ship computes the utility of \<open>Item.from_json\<close> of the call's body,
  and \<open>from_json\<close> draws a new value for an attribute that is \<open>0.0\<close>. The idle ship
  (preferences \<open>1/2\<close>, \<open>1/4\<close>, \<open>1\<close>) receives a call for an item with attributes
  \<open>0\<close>, \<open>1/2\<close>, \<open>1/2\<close>, whose utility is \<open>5/8\<close>; its step sends a bid for an
  item with attributes \<open>3/10\<close>, \<open>1/2\<close>, \<open>1/2\<close> and utility \<open>31/40\<close>.
\<close>

theorem bid_utility_after_redraw:
  "Ship_step no_route Map.empty 0 (\<lambda>k. spare_rand)
     [cfp_cargo\<lparr> m_item := cargo\<lparr> it_a := 0 \<rparr> \<rparr>] idle_ship
     \<lparr> items = [cargo\<lparr> it_a := 0 \<rparr>], computed_items_nb = 0 \<rparr>
   = Inr (idle_ship\<lparr> potential_destination := Some p1, s_waiting_for_proposal := True \<rparr>,
          \<lparr> items = [cargo\<lparr> it_a := 0 \<rparr>], computed_items_nb = 0 \<rparr>,
          [bid_cargo\<lparr> m_item := cargo\<lparr> it_a := 3 / 10 \<rparr>, m_fields := [3, 4, 31 / 40] \<rparr>])
   \<and> utility idle_ship (cargo\<lparr> it_a := 0 \<rparr>) = 5 / 8"
  by (simp add: Ship_step_def ship_move_def ship_messages.simps handle_message_def on_cfp_def
      on_reject_def on_accept_def utility_def body_field_def planet_at_def from_json_def
      Item_init_def py_not_def idle_ship_def cfp_cargo_def bid_cargo_def cargo_def spare_rand_def
      p0_def p1_def p2_def Let_def)

subsection \<open>Planets: the resolution of a round\<close>

lemma body_field_bid:
  "well_formed_bid p \<Longrightarrow> body_field p 3 = Inr (bid_utility p)"
  by (simp add: well_formed_bid_def bid_utility_def body_field_def)

lemma best_scan_spec:
  assumes "list_all well_formed_bid ps"
  shows "\<exists>r. best_scan ps i bestRank bestUtility = Inr r \<and>
           (if list_ex (\<lambda>p. bid_utility p > bestUtility) ps
            then \<exists>xs b ys. ps = xs @ b # ys \<and> r = i + length xs
                   \<and> list_all (\<lambda>p. bid_utility p < bid_utility b) xs
                   \<and> list_all (\<lambda>p. bid_utility p \<le> bid_utility b) ys
                   \<and> bid_utility b > bestUtility
            else r = bestRank)"
  using assms
proof (induction ps arbitrary: i bestRank bestUtility)
  case Nil
  then show ?case by simp
next
  case (Cons p ps)
  have wf: "well_formed_bid p" "list_all well_formed_bid ps" using Cons.prems by simp_all
  have f: "body_field p 3 = Inr (bid_utility p)" using wf(1) by (rule body_field_bid)
  show ?case
  proof (cases "bid_utility p > bestUtility")
    case True
    from Cons.IH[OF wf(2), of "Suc i" i "bid_utility p"] obtain r
      where r: "best_scan ps (Suc i) i (bid_utility p) = Inr r"
        and spec: "if list_ex (\<lambda>q. bid_utility q > bid_utility p) ps
            then \<exists>xs b ys. ps = xs @ b # ys \<and> r = Suc i + length xs
                   \<and> list_all (\<lambda>q. bid_utility q < bid_utility b) xs
                   \<and> list_all (\<lambda>q. bid_utility q \<le> bid_utility b) ys
                   \<and> bid_utility b > bid_utility p
            else r = i"
      by blast
    have run: "best_scan (p # ps) i bestRank bestUtility = Inr r" using f True r by simp
    have ex: "list_ex (\<lambda>q. bid_utility q > bestUtility) (p # ps)" using True by simp
    show ?thesis
    proof (cases "list_ex (\<lambda>q. bid_utility q > bid_utility p) ps")
      case later: True
      then obtain xs b ys where d: "ps = xs @ b # ys" "r = Suc i + length xs"
          "list_all (\<lambda>q. bid_utility q < bid_utility b) xs"
          "list_all (\<lambda>q. bid_utility q \<le> bid_utility b) ys" "bid_utility b > bid_utility p"
        using spec by auto
      have "p # ps = (p # xs) @ b # ys \<and> r = i + length (p # xs)
          \<and> list_all (\<lambda>q. bid_utility q < bid_utility b) (p # xs)
          \<and> list_all (\<lambda>q. bid_utility q \<le> bid_utility b) ys \<and> bid_utility b > bestUtility"
        using d True by simp
      then show ?thesis using run ex by (simp only: if_True) blast
    next
      case none: False
      then have "r = i" using spec by simp
      moreover have "list_all (\<lambda>q. bid_utility q \<le> bid_utility p) ps"
        using none by (auto simp: list_all_iff list_ex_iff not_less)
      ultimately have "p # ps = [] @ p # ps \<and> r = i + length ([] :: message list)
          \<and> list_all (\<lambda>q. bid_utility q < bid_utility p) []
          \<and> list_all (\<lambda>q. bid_utility q \<le> bid_utility p) ps \<and> bid_utility p > bestUtility"
        using True by simp
      then show ?thesis using run ex by (simp only: if_True) blast
    qed
  next
    case False
    from Cons.IH[OF wf(2), of "Suc i" bestRank bestUtility] obtain r
      where r: "best_scan ps (Suc i) bestRank bestUtility = Inr r"
        and spec: "if list_ex (\<lambda>q. bid_utility q > bestUtility) ps
            then \<exists>xs b ys. ps = xs @ b # ys \<and> r = Suc i + length xs
                   \<and> list_all (\<lambda>q. bid_utility q < bid_utility b) xs
                   \<and> list_all (\<lambda>q. bid_utility q \<le> bid_utility b) ys
                   \<and> bid_utility b > bestUtility
            else r = bestRank"
      by blast
    have run: "best_scan (p # ps) i bestRank bestUtility = Inr r" using f False r by simp
    show ?thesis
    proof (cases "list_ex (\<lambda>q. bid_utility q > bestUtility) ps")
      case later: True
      then obtain xs b ys where d: "ps = xs @ b # ys" "r = Suc i + length xs"
          "list_all (\<lambda>q. bid_utility q < bid_utility b) xs"
          "list_all (\<lambda>q. bid_utility q \<le> bid_utility b) ys" "bid_utility b > bestUtility"
        using spec by auto
      have ex: "list_ex (\<lambda>q. bid_utility q > bestUtility) (p # ps)" using later by simp
      have "p # ps = (p # xs) @ b # ys \<and> r = i + length (p # xs)
          \<and> list_all (\<lambda>q. bid_utility q < bid_utility b) (p # xs)
          \<and> list_all (\<lambda>q. bid_utility q \<le> bid_utility b) ys \<and> bid_utility b > bestUtility"
        using d False by simp
      then show ?thesis using run ex by (simp only: if_True) blast
    next
      case none: False
      then have "r = bestRank" using spec by simp
      moreover have "\<not> list_ex (\<lambda>q. bid_utility q > bestUtility) (p # ps)"
        using none False by simp
      ultimately show ?thesis using run by simp
    qed
  qed
qed

lemma answers_spec:
  assumes "list_all well_formed_bid ps"
  shows "\<exists>out. answers jid steps w bestRank j ps = Inr out \<and> length out = length ps \<and>
           (\<forall>k < length ps.
              out ! k = \<lparr> m_to = m_sender (ps ! k), m_sender = jid, m_item = w,
                          m_fields = [m_fields (ps ! k) ! 0, m_fields (ps ! k) ! 1],
                          performative = (if j + k = bestRank then ''accept_proposal''
                                          else ''reject_proposal''),
                          turn = steps \<rparr>)"
  using assms
proof (induction ps arbitrary: j)
  case Nil
  then show ?case by simp
next
  case (Cons p ps)
  have wf: "well_formed_bid p" "list_all well_formed_bid ps" using Cons.prems by simp_all
  have f: "body_field p 1 = Inr (m_fields p ! 0)" "body_field p 2 = Inr (m_fields p ! 1)"
    using wf(1) by (simp_all add: well_formed_bid_def body_field_def)
  from Cons.IH[OF wf(2), of "Suc j"] obtain out where out: "answers jid steps w bestRank (Suc j) ps = Inr out"
    "length out = length ps"
    "\<forall>k < length ps.
              out ! k = \<lparr> m_to = m_sender (ps ! k), m_sender = jid, m_item = w,
                          m_fields = [m_fields (ps ! k) ! 0, m_fields (ps ! k) ! 1],
                          performative = (if Suc j + k = bestRank then ''accept_proposal''
                                          else ''reject_proposal''),
                          turn = steps \<rparr>"
    by blast
  let ?m = "\<lparr> m_to = m_sender p, m_sender = jid, m_item = w,
              m_fields = [m_fields p ! 0, m_fields p ! 1],
              performative = (if j = bestRank then ''accept_proposal'' else ''reject_proposal''),
              turn = steps \<rparr>"
  have run: "answers jid steps w bestRank j (p # ps) = Inr (?m # out)"
    using f out(1) by simp
  have "(?m # out) ! k = \<lparr> m_to = m_sender ((p # ps) ! k), m_sender = jid, m_item = w,
                          m_fields = [m_fields ((p # ps) ! k) ! 0, m_fields ((p # ps) ! k) ! 1],
                          performative = (if j + k = bestRank then ''accept_proposal''
                                          else ''reject_proposal''),
                          turn = steps \<rparr>" if "k < length (p # ps)" for k
  proof (cases k)
    case 0
    then show ?thesis by simp
  next
    case (Suc k')
    then have "k' < length ps" using that by simp
    then show ?thesis using out(3) Suc by simp
  qed
  then show ?case using run out(2) by simp
qed

lemma resolve_expired_with_bids:
  assumes "start_times pm (uid w) = Some st" "steps - st > WAITING_TIME"
    "proposals pm (uid w) = Some ps" "ps \<noteq> []" "award (p_jid pm) steps w ps = Inr msgs"
  shows "resolve steps ch l (w # ws) pm out dels =
           resolve steps ch (Suc l) ws
             (pm\<lparr> proposals := (proposals pm)(uid w := None),
                   start_times := (start_times pm)(uid w := None) \<rparr>)
             (out @ msgs) (dels @ [l])"
  using assms by (simp add: Let_def)

text \<open>
  C1. For a non-empty list of bids (each with the fields the planet reads) the resolution
  returns one answer per bid, in order, each addressed to the sender of its bid: exactly
  one \<open>accept_proposal\<close>, at the index of the winning bid, and \<open>reject_proposal\<close>
  at every other index. If some bid has a utility above 0, the winner is the first bid
  of maximum utility (every earlier bid is strictly smaller, every later one is not
  larger); if none has, the winner is the bid at index 0. These answers are what the loop
  of \<open>PlanetManager.step\<close> sends for a round whose waiting time has run out.
\<close>

theorem award_best_bid:
  assumes "ps \<noteq> []" and "list_all well_formed_bid ps"
  shows "\<exists>msgs xs b ys. award jid steps w ps = Inr msgs \<and> ps = xs @ b # ys
      \<and> length msgs = length ps
      \<and> (\<forall>k < length ps.
            m_to (msgs ! k) = m_sender (ps ! k) \<and> m_sender (msgs ! k) = jid
            \<and> m_item (msgs ! k) = w
            \<and> performative (msgs ! k) =
                 (if k = length xs then ''accept_proposal'' else ''reject_proposal''))
      \<and> (if list_ex (\<lambda>p. bid_utility p > 0) ps
          then list_all (\<lambda>p. bid_utility p < bid_utility b) xs
               \<and> list_all (\<lambda>p. bid_utility p \<le> bid_utility b) ys
          else xs = [])
      \<and> (\<forall>pm st ch l ws out dels.
            p_jid pm = jid \<and> start_times pm (uid w) = Some st \<and> steps - st > WAITING_TIME
            \<and> proposals pm (uid w) = Some ps \<longrightarrow>
            resolve steps ch l (w # ws) pm out dels =
              resolve steps ch (Suc l) ws
                (pm\<lparr> proposals := (proposals pm)(uid w := None),
                      start_times := (start_times pm)(uid w := None) \<rparr>)
                (out @ msgs) (dels @ [l]))"
proof -
  from best_scan_spec[OF assms(2), of 0 0 0] obtain r where r: "best_scan ps 0 0 0 = Inr r"
    and spec: "if list_ex (\<lambda>p. bid_utility p > 0) ps
            then \<exists>xs b ys. ps = xs @ b # ys \<and> r = 0 + length xs
                   \<and> list_all (\<lambda>p. bid_utility p < bid_utility b) xs
                   \<and> list_all (\<lambda>p. bid_utility p \<le> bid_utility b) ys
                   \<and> bid_utility b > 0
            else r = 0"
    by blast
  from answers_spec[OF assms(2), of jid steps w r 0] obtain msgs
    where msgs: "answers jid steps w r 0 ps = Inr msgs" "length msgs = length ps"
      and each: "\<forall>k < length ps.
              msgs ! k = \<lparr> m_to = m_sender (ps ! k), m_sender = jid, m_item = w,
                          m_fields = [m_fields (ps ! k) ! 0, m_fields (ps ! k) ! 1],
                          performative = (if 0 + k = r then ''accept_proposal''
                                          else ''reject_proposal''),
                          turn = steps \<rparr>"
    by blast
  have aw: "award jid steps w ps = Inr msgs" using r msgs(1) by (simp add: award_def)
  obtain xs b ys where d: "ps = xs @ b # ys" "r = length xs"
    "if list_ex (\<lambda>p. bid_utility p > 0) ps
          then list_all (\<lambda>p. bid_utility p < bid_utility b) xs
               \<and> list_all (\<lambda>p. bid_utility p \<le> bid_utility b) ys
          else xs = []"
  proof (cases "list_ex (\<lambda>p. bid_utility p > 0) ps")
    case True
    then obtain xs b ys where "ps = xs @ b # ys" "r = length xs"
      "list_all (\<lambda>p. bid_utility p < bid_utility b) xs"
      "list_all (\<lambda>p. bid_utility p \<le> bid_utility b) ys"
      using spec by auto
    then show ?thesis using that[of xs b ys] True by simp
  next
    case False
    then have "r = 0" using spec by simp
    moreover obtain b ys where "ps = b # ys" using assms(1) by (cases ps) auto
    ultimately show ?thesis using that[of "[]" b ys] False by simp
  qed
  have fields: "\<forall>k < length ps.
            m_to (msgs ! k) = m_sender (ps ! k) \<and> m_sender (msgs ! k) = jid
            \<and> m_item (msgs ! k) = w
            \<and> performative (msgs ! k) =
                 (if k = length xs then ''accept_proposal'' else ''reject_proposal'')"
    using each d(2) by simp
  have link: "\<forall>pm st ch l ws out dels.
            p_jid pm = jid \<and> start_times pm (uid w) = Some st \<and> steps - st > WAITING_TIME
            \<and> proposals pm (uid w) = Some ps \<longrightarrow>
            resolve steps ch l (w # ws) pm out dels =
              resolve steps ch (Suc l) ws
                (pm\<lparr> proposals := (proposals pm)(uid w := None),
                      start_times := (start_times pm)(uid w := None) \<rparr>)
                (out @ msgs) (dels @ [l])"
    using aw assms(1) by (auto intro!: resolve_expired_with_bids)
  show ?thesis
    using aw d(1) msgs(2) fields d(3) link by blast
qed

lemmas planet_eval =
  PlanetManager_step_def spawn_def NEW_ITEM_PROBA_def WAITING_TIME_def award_def body_field_def
  depot_def quiet_def soliciting_def bid_of_def answer_to_def cargo_def spare_rand_def
  from_json_def Item_init_def py_not_def py_choice_def Let_def item_eq_def

lemma award_three_bids:
  "award ''planet-0@localhost'' 4 cargo
     [bid_of ''ship-a'' (7 / 10), bid_of ''ship-b'' (9 / 10), bid_of ''ship-c'' (4 / 10)]
   = Inr [answer_to ''ship-a'' ''reject_proposal'', answer_to ''ship-b'' ''accept_proposal'',
          answer_to ''ship-c'' ''reject_proposal'']"
  by (simp add: planet_eval)

lemma step_three_bids:
  "PlanetManager_step 4 quiet [] []
     (soliciting [bid_of ''ship-a'' (7 / 10), bid_of ''ship-b'' (9 / 10), bid_of ''ship-c'' (4 / 10)])
     \<lparr> items = [cargo], computed_items_nb = 0 \<rparr>
   = Inr (depot, \<lparr> items = [cargo], computed_items_nb = 0 \<rparr>,
          [answer_to ''ship-a'' ''reject_proposal'', answer_to ''ship-b'' ''accept_proposal'',
           answer_to ''ship-c'' ''reject_proposal''])"
  by (simp add: planet_eval)

theorem award_best_bid_witness:
  "[bid_of ''ship-a'' (7 / 10), bid_of ''ship-b'' (9 / 10), bid_of ''ship-c'' (4 / 10)] \<noteq> []
   \<and> list_all well_formed_bid
        [bid_of ''ship-a'' (7 / 10), bid_of ''ship-b'' (9 / 10), bid_of ''ship-c'' (4 / 10)]
   \<and> (\<exists>msgs. award ''planet-0@localhost'' 4 cargo
          [bid_of ''ship-a'' (7 / 10), bid_of ''ship-b'' (9 / 10), bid_of ''ship-c'' (4 / 10)]
          = Inr msgs
        \<and> map performative msgs = [''reject_proposal'', ''accept_proposal'', ''reject_proposal'']
        \<and> map m_to msgs = [''ship-a'', ''ship-b'', ''ship-c''])
   \<and> PlanetManager_step 4 quiet [] []
       (soliciting [bid_of ''ship-a'' (7 / 10), bid_of ''ship-b'' (9 / 10), bid_of ''ship-c'' (4 / 10)])
       \<lparr> items = [cargo], computed_items_nb = 0 \<rparr>
     = Inr (depot, \<lparr> items = [cargo], computed_items_nb = 0 \<rparr>,
          [answer_to ''ship-a'' ''reject_proposal'', answer_to ''ship-b'' ''accept_proposal'',
           answer_to ''ship-c'' ''reject_proposal''])"
proof -
  let ?ps = "[bid_of ''ship-a'' (7 / 10), bid_of ''ship-b'' (9 / 10), bid_of ''ship-c'' (4 / 10)]"
  have ne: "?ps \<noteq> []" by simp
  have wf: "list_all well_formed_bid ?ps" by (simp add: well_formed_bid_def bid_of_def)
  from award_best_bid[OF ne wf, of "''planet-0@localhost''" 4 cargo]
  obtain msgs where aw: "award ''planet-0@localhost'' 4 cargo ?ps = Inr msgs"
    by (elim exE conjE)
  have "msgs = [answer_to ''ship-a'' ''reject_proposal'', answer_to ''ship-b'' ''accept_proposal'',
          answer_to ''ship-c'' ''reject_proposal'']"
    using aw unfolding award_three_bids by simp
  then have "map performative msgs = [''reject_proposal'', ''accept_proposal'', ''reject_proposal'']
        \<and> map m_to msgs = [''ship-a'', ''ship-b'', ''ship-c'']"
    by (simp add: answer_to_def)
  with aw have "\<exists>msgs. award ''planet-0@localhost'' 4 cargo ?ps = Inr msgs
        \<and> map performative msgs = [''reject_proposal'', ''accept_proposal'', ''reject_proposal'']
        \<and> map m_to msgs = [''ship-a'', ''ship-b'', ''ship-c'']"
    by (intro exI[of _ msgs] conjI) simp_all
  with ne wf step_three_bids show ?thesis by (intro conjI)
qed

text \<open>Every drained message is looked up in \<open>proposals\<close>; an item without an entry
  raises KeyError.\<close>

lemma collect_unknown_item:
  "P (uid (from_json (m_item m) (rj k))) = None \<Longrightarrow> collect rj k (m # ms) P = Inl KeyError"
  by (simp add: Let_def)

text \<open>
  C4. A message for an item the planet has no round for is claimed to be dropped
  silently. The planet has awarded the item and closed its round; the bid of a third
  ship arrives afterwards. The step looks the item up in the plain dictionary
  \<open>proposals\<close> and raises KeyError: the tick is aborted.
\<close>

theorem late_proposal_raises_KeyError:
  "PlanetManager_step 5 quiet [idle_ship] [bid_of ''ship-c'' (4 / 10)] depot
     \<lparr> items = [cargo], computed_items_nb = 0 \<rparr> = Inl KeyError"
  by (simp add: planet_eval)

subsection \<open>Planets: the life of a round\<close>

text \<open>Lookups in \<open>items_to_ship\<close> after an assignment, and what the phases of
  \<open>PlanetManager.step\<close> before the resolution loop change: the new item, the rounds
  opened for the items of \<open>items_to_ship\<close>, and the bids filed under their items.\<close>

lemma dict_get_set: "dict_get (dict_set d k v) k = Some v"
  by (induction d) (auto simp: item_eq_def)

lemma dict_get_set_other: "uid k' \<noteq> uid k \<Longrightarrow> dict_get (dict_set d k' v) k = dict_get d k"
  by (induction d) (auto simp: item_eq_def)

lemma dict_keys_set':
  "(\<lambda>e. uid (fst e)) ` set (dict_set d k v) = insert (uid k) ((\<lambda>e. uid (fst e)) ` set d)"
proof (induction d)
  case Nil
  then show ?case by simp
next
  case (Cons e d)
  obtain k' v' where e: "e = (k', v')" by (cases e)
  show ?case
  proof (cases "uid k' = uid k")
    case True
    then have "dict_set (e # d) k v = (k', v) # d" by (simp add: e item_eq_def)
    then show ?thesis using True by (simp add: e insert_absorb)
  next
    case False
    then have "dict_set (e # d) k v = (k', v') # dict_set d k v" by (simp add: e item_eq_def)
    then show ?thesis using Cons.IH by (simp add: e insert_commute)
  qed
qed

lemma dict_keys_set: "uid ` fst ` set (dict_set d k v) = insert (uid k) (uid ` fst ` set d)"
  using dict_keys_set'[of d k v] by (simp add: image_image)

lemma dict_get_Some: "dict_get d k = Some v \<Longrightarrow> \<exists>j. (j, v) \<in> set d \<and> uid j = uid k"
  by (induction d) (auto simp: item_eq_def split: if_splits)

lemma spawn_frame:
  assumes "spawn r pm w = Inr (pm1, w1)"
  shows "p_waiting_for_proposal pm1 = p_waiting_for_proposal pm \<and> start_times pm1 = start_times pm
     \<and> proposals pm1 = proposals pm \<and> p_planets pm1 = p_planets pm \<and> p_jid pm1 = p_jid pm
     \<and> uid ` fst ` set (items_to_ship pm1)
          \<subseteq> insert (ruid (r_item r)) (uid ` fst ` set (items_to_ship pm))
     \<and> set (items_to_ship pm) \<subseteq> set (items_to_ship pm1)
          \<union> {jd. uid (fst jd) = ruid (r_item r)}"
proof (cases "r_new r < NEW_ITEM_PROBA")
  case False
  then show ?thesis using assms by (auto simp: spawn_def)
next
  case True
  let ?it = "Item_init (p_x pm) (p_y pm) None None None None (r_item r)"
  have u: "uid ?it = ruid (r_item r)" by (simp add: Item_init_def py_not_def)
  from assms True obtain d where pm1: "pm1 = pm\<lparr>items_to_ship := dict_set (items_to_ship pm) ?it d\<rparr>"
    by (auto simp: spawn_def Let_def split: sum.splits)
  have keep: "jd \<in> set ds \<Longrightarrow> jd \<in> set (dict_set ds k v) \<or> uid (fst jd) = uid k"
    for jd :: "item \<times> planet" and ds k v
    by (induction ds) (auto simp: item_eq_def)
  show ?thesis unfolding pm1 using dict_keys_set[of "items_to_ship pm" ?it d] u keep[of _ "items_to_ship pm" ?it d]
    by auto
qed

lemma solicit_frame:
  "solicit steps ships pend pm = (pm2, out1) \<Longrightarrow>
   p_waiting_for_proposal pm2 = p_waiting_for_proposal pm @ map fst pend
   \<and> p_planets pm2 = p_planets pm \<and> p_jid pm2 = p_jid pm
   \<and> items_to_ship pm2 = items_to_ship pm
   \<and> (\<forall>u. u \<notin> uid ` fst ` set pend \<longrightarrow>
          start_times pm2 u = start_times pm u \<and> proposals pm2 u = proposals pm u)
   \<and> (\<forall>u. u \<in> uid ` fst ` set pend \<longrightarrow> start_times pm2 u = Some steps)"
proof (induction pend arbitrary: pm pm2 out1)
  case Nil
  then show ?case by simp
next
  case (Cons e pend)
  obtain it d where e: "e = (it, d)" by (cases e)
  let ?pm1 = "pm\<lparr> start_times := (start_times pm)(uid it \<mapsto> steps),
                     proposals := (proposals pm)(uid it \<mapsto> []),
                     p_waiting_for_proposal := p_waiting_for_proposal pm @ [it] \<rparr>"
  from Cons.prems e obtain out' where r: "solicit steps ships pend ?pm1 = (pm2, out')"
    by (auto simp: Let_def split: prod.splits)
  note IH = Cons.IH[OF r]
  have w: "p_waiting_for_proposal pm2 = p_waiting_for_proposal pm @ map fst (e # pend)"
    using IH e by simp
  have f: "p_planets pm2 = p_planets pm \<and> p_jid pm2 = p_jid pm \<and> items_to_ship pm2 = items_to_ship pm"
    using IH by simp
  have other: "start_times pm2 u = start_times pm u \<and> proposals pm2 u = proposals pm u"
    if "u \<notin> uid ` fst ` set (e # pend)" for u
  proof -
    have "u \<noteq> uid it" "u \<notin> uid ` fst ` set pend" using that e by auto
    then show ?thesis using IH by simp
  qed
  have mine: "start_times pm2 u = Some steps" if "u \<in> uid ` fst ` set (e # pend)" for u
  proof (cases "u \<in> uid ` fst ` set pend")
    case True
    then show ?thesis using IH by blast
  next
    case False
    then have "u = uid it" using that e by auto
    moreover have "start_times pm2 u = start_times ?pm1 u" using False IH by blast
    ultimately show ?thesis by simp
  qed
  show ?case using w f other mine by blast
qed

lemma collect_frame:
  "collect rj k ms P = Inr P' \<Longrightarrow>
   (\<forall>u. P' u = None \<longleftrightarrow> P u = None)
   \<and> (\<forall>u. (\<forall>j < length ms. uid (from_json (m_item (ms ! j)) (rj (k + j))) \<noteq> u) \<longrightarrow> P' u = P u)"
proof (induction ms arbitrary: k P)
  case Nil
  then show ?case by simp
next
  case (Cons m ms)
  let ?key = "uid (from_json (m_item m) (rj k))"
  from Cons.prems obtain ps where ps: "P ?key = Some ps"
    and r: "collect rj (Suc k) ms (P(?key \<mapsto> ps @ [m])) = Inr P'"
    by (auto simp: Let_def split: option.splits)
  note IH = Cons.IH[OF r]
  have dom: "P' u = None \<longleftrightarrow> P u = None" for u
    using IH ps by (cases "u = ?key") auto
  have same: "P' u = P u"
    if h: "\<forall>j < length (m # ms). uid (from_json (m_item ((m # ms) ! j)) (rj (k + j))) \<noteq> u" for u
  proof -
    have "?key \<noteq> u" using h[rule_format, of 0] by simp
    moreover have "\<forall>j < length ms. uid (from_json (m_item (ms ! j)) (rj (Suc k + j))) \<noteq> u"
    proof (intro allI impI)
      fix j assume "j < length ms"
      then show "uid (from_json (m_item (ms ! j)) (rj (Suc k + j))) \<noteq> u"
        using h[rule_format, of "Suc j"] by simp
    qed
    ultimately show ?thesis using IH by simp
  qed
  show ?case using dom same by blast
qed

text \<open>The three ways the loop of \<open>PlanetManager.step\<close> can pass an item of the
  waiting list when it does not raise: the round is kept, it is closed with an award, or
  it is closed and the item queued again.\<close>

lemma resolve_head:
  assumes "resolve steps ch l (w # ws) pm out dels = Inr R"
  obtains (keep) st where "start_times pm (uid w) = Some st" "\<not> steps - st > WAITING_TIME"
      "resolve steps ch (Suc l) ws pm out dels = Inr R"
  | (award) st ps msgs where "start_times pm (uid w) = Some st" "steps - st > WAITING_TIME"
      "proposals pm (uid w) = Some ps" "ps \<noteq> []" "award (p_jid pm) steps w ps = Inr msgs"
      "resolve steps ch (Suc l) ws (close_round pm w) (out @ msgs) (dels @ [l]) = Inr R"
  | (requeue) st d where "start_times pm (uid w) = Some st" "steps - st > WAITING_TIME"
      "proposals pm (uid w) = Some []" "py_choice (ch l) (p_planets pm) = Inr d"
      "resolve steps ch (Suc l) ws
         (close_round (pm\<lparr>items_to_ship := dict_set (items_to_ship pm) w d\<rparr>) w)
         out (dels @ [l]) = Inr R"
proof -
  from assms obtain st where st: "start_times pm (uid w) = Some st"
    by (auto split: option.splits)
  show ?thesis
  proof (cases "steps - st > WAITING_TIME")
    case False
    then show ?thesis using assms st keep by (simp add: Let_def)
  next
    case True
    from assms st True obtain ps where ps: "proposals pm (uid w) = Some ps"
      by (auto simp: Let_def split: option.splits)
    show ?thesis
    proof (cases "ps = []")
      case False
      from assms st True ps False obtain msgs where "award (p_jid pm) steps w ps = Inr msgs"
        by (auto simp: Let_def split: sum.splits)
      then show ?thesis using assms st True ps False award[of st ps msgs]
        by (simp add: Let_def close_round_def)
    next
      case e: True
      from assms st True ps e obtain d where "py_choice (ch l) (p_planets pm) = Inr d"
        by (auto simp: Let_def split: sum.splits)
      then show ?thesis using assms st True ps e requeue[of st d]
        by (simp add: Let_def close_round_def)
    qed
  qed
qed

text \<open>What the loop never changes, and the shape of \<open>items_to_del\<close>.\<close>

lemma resolve_frame:
  "resolve steps ch l ws pm out dels = Inr (pm', out', dels') \<Longrightarrow>
   p_planets pm' = p_planets pm \<and> p_jid pm' = p_jid pm
   \<and> p_waiting_for_proposal pm' = p_waiting_for_proposal pm
   \<and> (\<exists>ds. dels' = dels @ ds \<and> sorted_wrt (<) ds \<and> (\<forall>i \<in> set ds. l \<le> i \<and> i < l + length ws))"
proof (induction ws arbitrary: l pm out dels)
  case Nil
  then show ?case by simp
next
  case (Cons w ws)
  from Cons.prems show ?case
  proof (cases rule: resolve_head)
    case (keep st)
    from Cons.IH[OF keep(3)] obtain ds where ds: "dels' = dels @ ds" "sorted_wrt (<) ds"
      "\<forall>i \<in> set ds. Suc l \<le> i \<and> i < Suc l + length ws"
      and f: "p_planets pm' = p_planets pm" "p_jid pm' = p_jid pm"
        "p_waiting_for_proposal pm' = p_waiting_for_proposal pm"
      by blast
    have "\<forall>i \<in> set ds. l \<le> i \<and> i < l + length (w # ws)"
    proof
      fix i assume "i \<in> set ds"
      then have "Suc l \<le> i \<and> i < Suc l + length ws" using ds(3) by blast
      then show "l \<le> i \<and> i < l + length (w # ws)" by simp
    qed
    then show ?thesis using ds(1,2) f by blast
  next
    case (award st ps msgs)
    from Cons.IH[OF award(6)] obtain ds where ds: "dels' = (dels @ [l]) @ ds" "sorted_wrt (<) ds"
      "\<forall>i \<in> set ds. Suc l \<le> i \<and> i < Suc l + length ws"
      and f: "p_planets pm' = p_planets (close_round pm w)" "p_jid pm' = p_jid (close_round pm w)"
        "p_waiting_for_proposal pm' = p_waiting_for_proposal (close_round pm w)"
      by blast
    have "dels' = dels @ (l # ds) \<and> sorted_wrt (<) (l # ds)
        \<and> (\<forall>i \<in> set (l # ds). l \<le> i \<and> i < l + length (w # ws))"
      using ds by auto
    then show ?thesis using f by (simp add: close_round_def)
  next
    case (requeue st d)
    let ?pm1 = "close_round (pm\<lparr>items_to_ship := dict_set (items_to_ship pm) w d\<rparr>) w"
    from Cons.IH[OF requeue(5)] obtain ds where ds: "dels' = (dels @ [l]) @ ds" "sorted_wrt (<) ds"
      "\<forall>i \<in> set ds. Suc l \<le> i \<and> i < Suc l + length ws"
      and f: "p_planets pm' = p_planets ?pm1" "p_jid pm' = p_jid ?pm1"
        "p_waiting_for_proposal pm' = p_waiting_for_proposal ?pm1"
      by blast
    have "dels' = dels @ (l # ds) \<and> sorted_wrt (<) (l # ds)
        \<and> (\<forall>i \<in> set (l # ds). l \<le> i \<and> i < l + length (w # ws))"
      using ds by auto
    then show ?thesis using f by (simp add: close_round_def)
  qed
qed

text \<open>An item without a start time cannot be in the waiting list of a loop that
  returns, and the loop leaves its entries alone.\<close>

lemma resolve_closed:
  "resolve steps ch l ws pm out dels = Inr (pm', out', dels') \<Longrightarrow>
   start_times pm u = None \<Longrightarrow>
   u \<notin> uid ` set ws \<and> start_times pm' u = None
   \<and> proposals pm' u = proposals pm u
   \<and> (\<forall>it. uid it = u \<longrightarrow> dict_get (items_to_ship pm') it = dict_get (items_to_ship pm) it)"
proof (induction ws arbitrary: l pm out dels)
  case Nil
  then show ?case by simp
next
  case (Cons w ws)
  from Cons.prems(1) show ?case
  proof (cases rule: resolve_head)
    case (keep st)
    then have "uid w \<noteq> u" using Cons.prems(2) by auto
    then show ?thesis using Cons.IH[OF keep(3) Cons.prems(2)] by simp
  next
    case (award st ps msgs)
    then have ne: "uid w \<noteq> u" using Cons.prems(2) by auto
    have "start_times (close_round pm w) u = None" using Cons.prems(2) by (simp add: close_round_def)
    from Cons.IH[OF award(6) this] show ?thesis using ne by (simp add: close_round_def)
  next
    case (requeue st d)
    then have ne: "uid w \<noteq> u" using Cons.prems(2) by auto
    let ?pm1 = "close_round (pm\<lparr>items_to_ship := dict_set (items_to_ship pm) w d\<rparr>) w"
    have "start_times ?pm1 u = None" using Cons.prems(2) by (simp add: close_round_def)
    from Cons.IH[OF requeue(5) this] show ?thesis
      using ne by (simp add: close_round_def dict_get_set_other)
  qed
qed

text \<open>A round whose waiting time has not run out is left as it is, and no index of an
  item of that round is marked for deletion.\<close>

lemma resolve_keeps:
  "resolve steps ch l ws pm out dels = Inr (pm', out', dels') \<Longrightarrow>
   start_times pm u = Some st \<Longrightarrow> \<not> steps - st > WAITING_TIME \<Longrightarrow>
   start_times pm' u = Some st \<and> proposals pm' u = proposals pm u
   \<and> (\<forall>i < length ws. uid (ws ! i) = u \<longrightarrow> l + i \<in> set dels' \<longrightarrow> l + i \<in> set dels)"
proof (induction ws arbitrary: l pm out dels)
  case Nil
  then show ?case by simp
next
  case (Cons w ws)
  have shift: "(\<forall>i < length (w # ws). uid ((w # ws) ! i) = u \<longrightarrow> l + i \<in> set dels' \<longrightarrow> l + i \<in> set dels)"
    if rest: "\<forall>i < length ws. uid (ws ! i) = u \<longrightarrow> Suc l + i \<in> set dels' \<longrightarrow> Suc l + i \<in> set D"
      and head: "uid w = u \<longrightarrow> l \<in> set dels' \<longrightarrow> l \<in> set dels"
      and D: "set D \<subseteq> insert l (set dels)" for D
  proof (intro allI impI)
    fix i assume i: "i < length (w # ws)" "uid ((w # ws) ! i) = u" "l + i \<in> set dels'"
    show "l + i \<in> set dels"
    proof (cases i)
      case 0
      then show ?thesis using i head by simp
    next
      case (Suc j)
      then have "Suc l + j \<in> set D" using rest i by simp
      then have "Suc l + j = l \<or> Suc l + j \<in> set dels" using D by blast
      then show ?thesis using Suc by simp
    qed
  qed
  from Cons.prems(1) show ?case
  proof (cases rule: resolve_head)
    case (keep st')
    note IH = Cons.IH[OF keep(3) Cons.prems(2,3)]
    obtain ds where ds: "dels' = dels @ ds" "\<forall>i \<in> set ds. Suc l \<le> i"
      using resolve_frame[OF keep(3)] by blast
    have head: "uid w = u \<longrightarrow> l \<in> set dels' \<longrightarrow> l \<in> set dels" using ds by auto
    show ?thesis using IH shift[of dels] head by blast
  next
    case (award st' ps msgs)
    then have ne: "uid w \<noteq> u" using Cons.prems(2,3) by auto
    have s: "start_times (close_round pm w) u = Some st" using ne Cons.prems(2) by (simp add: close_round_def)
    note IH = Cons.IH[OF award(6) s Cons.prems(3)]
    have "proposals (close_round pm w) u = proposals pm u" using ne by (simp add: close_round_def)
    then show ?thesis using IH shift[of "dels @ [l]"] ne by auto
  next
    case (requeue st' d)
    then have ne: "uid w \<noteq> u" using Cons.prems(2,3) by auto
    let ?pm1 = "close_round (pm\<lparr>items_to_ship := dict_set (items_to_ship pm) w d\<rparr>) w"
    have s: "start_times ?pm1 u = Some st" using ne Cons.prems(2) by (simp add: close_round_def)
    note IH = Cons.IH[OF requeue(5) s Cons.prems(3)]
    have "proposals ?pm1 u = proposals pm u" using ne by (simp add: close_round_def)
    then show ?thesis using IH shift[of "dels @ [l]"] ne by auto
  qed
qed

lemma resolve_expired:
  "resolve steps ch l ws pm out dels = Inr (pm', out', dels') \<Longrightarrow>
   start_times pm u = Some st \<Longrightarrow> steps - st > WAITING_TIME \<Longrightarrow>
   i < length ws \<Longrightarrow> uid (ws ! i) = u \<Longrightarrow>
   l + i \<in> set dels' \<and> start_times pm' u = None \<and> proposals pm' u = None
   \<and> (proposals pm u = Some [] \<longrightarrow>
        p_planets pm \<noteq> [] \<and>
        dict_get (items_to_ship pm') (ws ! i)
          = Some (p_planets pm ! (ch (l + i) mod length (p_planets pm))))"
proof (induction ws arbitrary: l pm out dels i)
  case Nil
  then show ?case by simp
next
  case (Cons w ws)
  note run = Cons.prems(1) and st = Cons.prems(2) and ex = Cons.prems(3)
    and i = Cons.prems(4) and u = Cons.prems(5)
  have later: ?case
    if ne: "uid w \<noteq> u"
      and rest: "resolve steps ch (Suc l) ws pm1 out1 dels1 = Inr (pm', out', dels')"
      and same: "start_times pm1 u = start_times pm u" "proposals pm1 u = proposals pm u"
        "p_planets pm1 = p_planets pm"
    for pm1 out1 dels1
  proof -
    obtain j where j: "i = Suc j" using ne u by (cases i) auto
    then have jl: "j < length ws" and ju: "uid (ws ! j) = u" using i u by simp_all
    have s1: "start_times pm1 u = Some st" using same st by simp
    from Cons.IH[OF rest s1 ex jl ju] show ?thesis using j same by simp
  qed
  have here: ?case
    if eq: "uid w = u"
      and rest: "resolve steps ch (Suc l) ws pm1 out1 (dels @ [l]) = Inr (pm', out', dels')"
      and closed: "start_times pm1 u = None" "proposals pm1 u = None"
      and dict: "proposals pm u = Some [] \<longrightarrow>
          p_planets pm \<noteq> [] \<and>
          dict_get (items_to_ship pm1) w = Some (p_planets pm ! (ch l mod length (p_planets pm)))"
    for pm1 out1
  proof -
    from resolve_closed[OF rest closed(1)]
    have c: "u \<notin> uid ` set ws" "start_times pm' u = None" "proposals pm' u = proposals pm1 u"
      "dict_get (items_to_ship pm') w = dict_get (items_to_ship pm1) w"
      using eq by blast+
    have i0: "i = 0"
    proof (cases i)
      case (Suc j)
      then have "uid (ws ! j) = u" "j < length ws" using u i by simp_all
      then have "u \<in> uid ` set ws" by (metis imageI nth_mem)
      then show ?thesis using c(1) by simp
    qed simp
    obtain ds where "dels' = (dels @ [l]) @ ds" using resolve_frame[OF rest] by blast
    then have "l \<in> set dels'" by simp
    then show ?thesis using i0 c closed dict by simp
  qed
  from run show ?case
  proof (cases rule: resolve_head)
    case (keep st')
    then have "uid w \<noteq> u" using st ex by auto
    then show ?thesis using keep(3) by (rule later) simp_all
  next
    case (award st' ps msgs)
    show ?thesis
    proof (cases "uid w = u")
      case False
      then show ?thesis using award(6)
        by (rule later) (use False in \<open>auto simp: close_round_def\<close>)
    next
      case True
      then show ?thesis using award(6)
      proof (rule here)
        show "start_times (close_round pm w) u = None" "proposals (close_round pm w) u = None"
          using True by (simp_all add: close_round_def)
        show "proposals pm u = Some [] \<longrightarrow>
          p_planets pm \<noteq> [] \<and>
          dict_get (items_to_ship (close_round pm w)) w
            = Some (p_planets pm ! (ch l mod length (p_planets pm)))"
          using award(3,4) True by simp
      qed
    qed
  next
    case (requeue st' d)
    let ?pm1 = "close_round (pm\<lparr>items_to_ship := dict_set (items_to_ship pm) w d\<rparr>) w"
    show ?thesis
    proof (cases "uid w = u")
      case False
      then show ?thesis using requeue(5)
        by (rule later) (use False in \<open>auto simp: close_round_def\<close>)
    next
      case True
      then show ?thesis using requeue(5)
      proof (rule here)
        show "start_times ?pm1 u = None" "proposals ?pm1 u = None"
          using True by (simp_all add: close_round_def)
        have "p_planets pm \<noteq> [] \<and> d = p_planets pm ! (ch l mod length (p_planets pm))"
          using requeue(4) by (auto simp: py_choice_def split: if_splits)
        then show "proposals pm u = Some [] \<longrightarrow>
          p_planets pm \<noteq> [] \<and>
          dict_get (items_to_ship ?pm1) w = Some (p_planets pm ! (ch l mod length (p_planets pm)))"
          by (simp add: close_round_def dict_get_set)
      qed
    qed
  qed
qed

lemma nths_cong_below:
  "(\<And>i. i < length xs \<Longrightarrow> i \<in> A \<longleftrightarrow> i \<in> B) \<Longrightarrow> nths xs A = nths xs B"
proof -
  assume h: "\<And>i. i < length xs \<Longrightarrow> i \<in> A \<longleftrightarrow> i \<in> B"
  have "filter (\<lambda>p. snd p \<in> A) (zip xs [0..<length xs]) = filter (\<lambda>p. snd p \<in> B) (zip xs [0..<length xs])"
  proof (rule filter_cong[OF refl])
    fix p assume "p \<in> set (zip xs [0..<length xs])"
    then have "snd p \<in> set [0..<length xs]" by (metis in_set_zipE prod.collapse)
    then show "(snd p \<in> A) = (snd p \<in> B)" using h by simp
  qed
  then show ?thesis by (simp add: nths_def)
qed

lemma nths_drop_index:
  assumes k: "k < length xs" and K: "\<And>j. j \<in> K \<Longrightarrow> j < k"
  shows "nths (take k xs @ drop (Suc k) xs) (- K) = nths xs (- insert k K)"
proof -
  let ?ys = "take k xs" and ?zs = "drop (Suc k) xs"
  have xs: "xs = ?ys @ xs ! k # ?zs" using k by (rule id_take_nth_drop)
  have ly: "length ?ys = k" using k by simp
  have a: "nths ?ys (- K) = nths ?ys (- insert k K)"
    by (rule nths_cong_below) (simp add: ly)
  have b: "nths ?zs {j. j + k \<in> - K} = ?zs"
    by (rule nths_all) (use K in fastforce)
  have c: "nths (xs ! k # ?zs) {j. j + k \<in> - insert k K} = ?zs"
  proof -
    have "nths ?zs {j. Suc j \<in> {j. j + k \<in> - insert k K}} = ?zs"
      by (rule nths_all) (use K in fastforce)
    then show ?thesis by (simp add: nths_Cons)
  qed
  have "nths (?ys @ ?zs) (- K) = nths ?ys (- K) @ ?zs"
    using b k by (simp add: nths_append min_absorb2)
  moreover have "nths (?ys @ xs ! k # ?zs) (- insert k K) = nths ?ys (- insert k K) @ ?zs"
    using c k by (simp add: nths_append min_absorb2)
  ultimately show ?thesis using a xs by metis
qed

lemma pop_all_sorted:
  "sorted_wrt (<) ks \<Longrightarrow> (\<And>k. k \<in> set ks \<Longrightarrow> k < length xs) \<Longrightarrow>
   pop_all (rev ks) xs = Inr (nths xs (- set ks))"
proof (induction ks arbitrary: xs rule: rev_induct)
  case Nil
  then show ?case by (simp add: nths_all)
next
  case (snoc k ks)
  have k: "k < length xs" using snoc.prems(2) by simp
  have below: "\<And>j. j \<in> set ks \<Longrightarrow> j < k" using snoc.prems(1) by (simp add: sorted_wrt_append)
  have s: "sorted_wrt (<) ks" using snoc.prems(1) by (simp add: sorted_wrt_append)
  have "pop_all (rev ks) (take k xs @ drop (Suc k) xs)
      = Inr (nths (take k xs @ drop (Suc k) xs) (- set ks))"
  proof (rule snoc.IH[OF s])
    fix j assume "j \<in> set ks"
    then have "j < k" by (rule below)
    then show "j < length (take k xs @ drop (Suc k) xs)" using k by simp
  qed
  then show ?case using k nths_drop_index[OF k below, of "set ks"] by simp
qed

lemma collect_arrivals:
  "collect rj k ms P = Inr P' \<Longrightarrow> P' u = map_option (\<lambda>ps. ps @ arrivals rj k ms u) (P u)"
proof (induction ms arbitrary: k P)
  case Nil
  then show ?case by (cases "P u") auto
next
  case (Cons m ms)
  let ?key = "uid (from_json (m_item m) (rj k))"
  from Cons.prems obtain ps where ps: "P ?key = Some ps"
    and r: "collect rj (Suc k) ms (P(?key \<mapsto> ps @ [m])) = Inr P'"
    by (auto simp: Let_def split: option.splits)
  note IH = Cons.IH[OF r]
  show ?case
  proof (cases "?key = u")
    case True
    then show ?thesis using IH ps by simp
  next
    case False
    then show ?thesis using IH by simp
  qed
qed

lemma answers_items:
  "answers jid steps w bestRank j ps = Inr msgs \<Longrightarrow> \<forall>m \<in> set msgs. m_item m = w"
proof (induction ps arbitrary: j msgs)
  case Nil
  then show ?case by simp
next
  case (Cons p ps)
  from Cons.prems obtain x y rest where
    rest: "answers jid steps w bestRank (Suc j) ps = Inr rest"
    and msgs: "msgs = \<lparr> m_to = m_sender p, m_sender = jid, m_item = w, m_fields = [x, y],
                         performative = (if j = bestRank then ''accept_proposal'' else ''reject_proposal''),
                         turn = steps \<rparr> # rest"
    by (auto split: sum.splits)
  show ?case using Cons.IH[OF rest] msgs by simp
qed

lemma award_items: "award jid steps w ps = Inr msgs \<Longrightarrow> \<forall>m \<in> set msgs. m_item m = w"
  using answers_items by (auto simp: award_def split: sum.splits)

lemma solicit_out:
  "solicit steps ships pend pm = (pm2, out1) \<Longrightarrow> \<forall>m \<in> set out1. m_item m \<in> fst ` set pend"
proof (induction pend arbitrary: pm pm2 out1)
  case Nil
  then show ?case by simp
next
  case (Cons e pend)
  obtain it d where e: "e = (it, d)" by (cases e)
  let ?pm1 = "pm\<lparr> start_times := (start_times pm)(uid it \<mapsto> steps),
                     proposals := (proposals pm)(uid it \<mapsto> []),
                     p_waiting_for_proposal := p_waiting_for_proposal pm @ [it] \<rparr>"
  from Cons.prems e obtain out' where r: "solicit steps ships pend ?pm1 = (pm2, out')"
    and o: "out1 = cfps steps pm ships it d @ out'"
    by (auto simp: Let_def split: prod.splits)
  have "\<forall>m \<in> set (cfps steps pm ships it d). m_item m = it" by (auto simp: cfps_def)
  then show ?case using Cons.IH[OF r] o e by auto
qed

text \<open>Every answer the loop sends is about an item whose round has run out and has a
  bid.\<close>

lemma resolve_out:
  "resolve steps ch l ws pm out dels = Inr (pm', out', dels') \<Longrightarrow>
   \<exists>ms. out' = out @ ms \<and>
     (\<forall>m \<in> set ms. \<exists>st ps. start_times pm (uid (m_item m)) = Some st \<and> steps - st > WAITING_TIME
          \<and> proposals pm (uid (m_item m)) = Some ps \<and> ps \<noteq> [])"
proof (induction ws arbitrary: l pm out dels)
  case Nil
  then show ?case by simp
next
  case (Cons w ws)
  have closed: "\<exists>st ps. start_times pm (uid (m_item m)) = Some st \<and> steps - st > WAITING_TIME
          \<and> proposals pm (uid (m_item m)) = Some ps \<and> ps \<noteq> []"
    if "\<exists>st ps. start_times (close_round pm1 w) (uid (m_item m)) = Some st \<and> steps - st > WAITING_TIME
          \<and> proposals (close_round pm1 w) (uid (m_item m)) = Some ps \<and> ps \<noteq> []"
      "start_times pm1 = start_times pm" "proposals pm1 = proposals pm" for m pm1
  proof -
    have "uid (m_item m) \<noteq> uid w" using that(1) by (auto simp: close_round_def)
    then show ?thesis using that by (simp add: close_round_def)
  qed
  from Cons.prems show ?case
  proof (cases rule: resolve_head)
    case (keep st)
    from Cons.IH[OF keep(3)] show ?thesis .
  next
    case (award st ps msgs)
    from Cons.IH[OF award(6)] obtain ms where ms: "out' = (out @ msgs) @ ms"
      "\<forall>m \<in> set ms. \<exists>st ps. start_times (close_round pm w) (uid (m_item m)) = Some st
          \<and> steps - st > WAITING_TIME
          \<and> proposals (close_round pm w) (uid (m_item m)) = Some ps \<and> ps \<noteq> []"
      by blast
    have a: "\<forall>m \<in> set msgs. \<exists>st ps. start_times pm (uid (m_item m)) = Some st \<and> steps - st > WAITING_TIME
          \<and> proposals pm (uid (m_item m)) = Some ps \<and> ps \<noteq> []"
      using award_items[OF award(5)] award(1-4) by simp
    have b: "\<forall>m \<in> set ms. \<exists>st ps. start_times pm (uid (m_item m)) = Some st \<and> steps - st > WAITING_TIME
          \<and> proposals pm (uid (m_item m)) = Some ps \<and> ps \<noteq> []"
    proof
      fix m assume "m \<in> set ms"
      then show "\<exists>st ps. start_times pm (uid (m_item m)) = Some st \<and> steps - st > WAITING_TIME
          \<and> proposals pm (uid (m_item m)) = Some ps \<and> ps \<noteq> []"
        using ms(2) closed[of pm m] by blast
    qed
    have "out' = out @ (msgs @ ms)" using ms(1) by simp
    moreover have "\<forall>m \<in> set (msgs @ ms). \<exists>st ps. start_times pm (uid (m_item m)) = Some st
          \<and> steps - st > WAITING_TIME \<and> proposals pm (uid (m_item m)) = Some ps \<and> ps \<noteq> []"
      using a b by auto
    ultimately show ?thesis by blast
  next
    case (requeue st d)
    let ?pm1 = "pm\<lparr>items_to_ship := dict_set (items_to_ship pm) w d\<rparr>"
    from Cons.IH[OF requeue(5)] obtain ms where ms: "out' = out @ ms"
      "\<forall>m \<in> set ms. \<exists>st ps. start_times (close_round ?pm1 w) (uid (m_item m)) = Some st
          \<and> steps - st > WAITING_TIME
          \<and> proposals (close_round ?pm1 w) (uid (m_item m)) = Some ps \<and> ps \<noteq> []"
      by blast
    have b: "\<forall>m \<in> set ms. \<exists>st ps. start_times pm (uid (m_item m)) = Some st \<and> steps - st > WAITING_TIME
          \<and> proposals pm (uid (m_item m)) = Some ps \<and> ps \<noteq> []"
    proof
      fix m assume "m \<in> set ms"
      then have "\<exists>st ps. start_times (close_round ?pm1 w) (uid (m_item m)) = Some st
          \<and> steps - st > WAITING_TIME
          \<and> proposals (close_round ?pm1 w) (uid (m_item m)) = Some ps \<and> ps \<noteq> []"
        using ms(2) by blast
      then show "\<exists>st ps. start_times pm (uid (m_item m)) = Some st \<and> steps - st > WAITING_TIME
          \<and> proposals pm (uid (m_item m)) = Some ps \<and> ps \<noteq> []"
        by (rule closed) simp_all
    qed
    show ?thesis using ms(1) b by blast
  qed
qed

text \<open>One step of the planet, seen from its rounds.\<close>

lemma dict_set_keeps_key:
  fixes d :: "(item \<times> 'v) list"
  shows "(a, b) \<in> set d \<Longrightarrow> \<exists>b'. (a, b') \<in> set (dict_set d k v)"
proof (induction d)
  case Nil
  then show ?case by simp
next
  case (Cons e d)
  obtain k' v' where e: "e = (k', v')" by (cases e)
  show ?case
  proof (cases "item_eq k' k")
    case True
    then show ?thesis using Cons.prems e by auto
  next
    case False
    then show ?thesis using Cons e by auto
  qed
qed

lemma spawn_keeps_keys:
  assumes "spawn r pm w = Inr (pm1, w1)"
  shows "fst ` set (items_to_ship pm) \<subseteq> fst ` set (items_to_ship pm1)"
proof (cases "r_new r < NEW_ITEM_PROBA")
  case False
  then show ?thesis using assms by (simp add: spawn_def)
next
  case True
  let ?it = "Item_init (p_x pm) (p_y pm) None None None None (r_item r)"
  from assms True obtain d where pm1: "pm1 = pm\<lparr>items_to_ship := dict_set (items_to_ship pm) ?it d\<rparr>"
    by (auto simp: spawn_def Let_def split: sum.splits)
  show ?thesis
  proof
    fix a assume "a \<in> fst ` set (items_to_ship pm)"
    then obtain b where "(a, b) \<in> set (items_to_ship pm)" by auto
    from dict_set_keeps_key[OF this, of ?it d]
    obtain b' where "(a, b') \<in> set (dict_set (items_to_ship pm) ?it d)" by blast
    then show "a \<in> fst ` set (items_to_ship pm1)" unfolding pm1 by force
  qed
qed

lemma spawn_position:
  "spawn r pm w = Inr (pm1, w1) \<Longrightarrow> p_jid pm1 = p_jid pm \<and> p_x pm1 = p_x pm \<and> p_y pm1 = p_y pm"
  by (auto simp: spawn_def Let_def split: if_splits sum.splits)

lemma solicit_calls:
  "solicit steps ships pend pm = (pm2, out1) \<Longrightarrow> (it, d) \<in> set pend \<Longrightarrow>
   set (cfps steps pm ships it d) \<subseteq> set out1"
proof (induction pend arbitrary: pm pm2 out1)
  case Nil
  then show ?case by simp
next
  case (Cons e pend)
  obtain it' d' where e: "e = (it', d')" by (cases e)
  let ?pm1 = "pm\<lparr> start_times := (start_times pm)(uid it' \<mapsto> steps),
                     proposals := (proposals pm)(uid it' \<mapsto> []),
                     p_waiting_for_proposal := p_waiting_for_proposal pm @ [it'] \<rparr>"
  from Cons.prems(1) e obtain out' where r: "solicit steps ships pend ?pm1 = (pm2, out')"
    and o: "out1 = cfps steps pm ships it' d' @ out'"
    by (auto simp: Let_def split: prod.splits)
  show ?case
  proof (cases "(it, d) = e")
    case True
    then show ?thesis using o e by auto
  next
    case False
    then have "(it, d) \<in> set pend" using Cons.prems(2) by auto
    from Cons.IH[OF r this] have "set (cfps steps ?pm1 ships it d) \<subseteq> set out'" .
    moreover have "cfps steps ?pm1 ships it d = cfps steps pm ships it d" by (simp add: cfps_def)
    ultimately show ?thesis using o by auto
  qed
qed

lemma PlanetManager_step_rounds:
  assumes "PlanetManager_step steps r ships msg_box pm w = Inr (pm', w', out)"
  obtains pend :: "(item \<times> planet) list" and pm4 pm5 out1 out2 dels where
    "uid ` fst ` set pend \<subseteq> insert (ruid (r_item r)) (uid ` fst ` set (items_to_ship pm))"
    "fst ` set (items_to_ship pm) \<subseteq> fst ` set pend"
    "p_waiting_for_proposal pm4 = p_waiting_for_proposal pm @ map fst pend"
    "p_planets pm4 = p_planets pm"
    "\<And>u. u \<notin> uid ` fst ` set pend \<Longrightarrow> start_times pm4 u = start_times pm u"
    "\<And>u. u \<in> uid ` fst ` set pend \<Longrightarrow> start_times pm4 u = Some steps"
    "\<And>u. u \<notin> uid ` fst ` set pend \<Longrightarrow>
        proposals pm4 u = map_option (\<lambda>ps. ps @ arrivals (r_json r) 0 msg_box u) (proposals pm u)"
    "resolve steps (r_requeue r) 0 (p_waiting_for_proposal pm4) pm4 [] [] = Inr (pm5, out2, dels)"
    "sorted_wrt (<) dels" "\<And>i. i \<in> set dels \<Longrightarrow> i < length (p_waiting_for_proposal pm4)"
    "pm' = pm5\<lparr>p_waiting_for_proposal := nths (p_waiting_for_proposal pm4) (- set dels)\<rparr>"
    "out = out1 @ out2" "\<forall>m \<in> set out1. m_item m \<in> fst ` set pend"
    "\<And>it d. (it, d) \<in> set (items_to_ship pm) \<Longrightarrow> ruid (r_item r) \<noteq> uid it \<Longrightarrow>
        set (cfps steps pm ships it d) \<subseteq> set out1"
proof -
  from assms obtain pm1 where sp: "spawn r pm w = Inr (pm1, w')"
    by (auto simp: PlanetManager_step_def Let_def split: sum.splits prod.splits)
  obtain pm2 out1 where so: "solicit steps ships (items_to_ship pm1) pm1 = (pm2, out1)"
    by (cases "solicit steps ships (items_to_ship pm1) pm1")
  from assms sp so obtain P where co: "collect (r_json r) 0 msg_box (proposals pm2) = Inr P"
    by (auto simp: PlanetManager_step_def Let_def split: sum.splits prod.splits)
  let ?pm4 = "pm2\<lparr>items_to_ship := [], proposals := P\<rparr>"
  from assms sp so co obtain pm5 out2 dels where
    re: "resolve steps (r_requeue r) 0 (p_waiting_for_proposal ?pm4) ?pm4 [] [] = Inr (pm5, out2, dels)"
    by (auto simp: PlanetManager_step_def Let_def split: sum.splits prod.splits)
  from assms sp so co re obtain ws where
    po: "pop_all (rev (sort dels)) (p_waiting_for_proposal pm5) = Inr ws"
    and pm': "pm' = pm5\<lparr>p_waiting_for_proposal := ws\<rparr>" and out: "out = out1 @ out2"
    by (auto simp: PlanetManager_step_def Let_def split: sum.splits prod.splits)
  note sf = spawn_frame[OF sp] and kf = spawn_keeps_keys[OF sp]
    and sol = solicit_frame[OF so] and rf = resolve_frame[OF re]
  have w5: "p_waiting_for_proposal pm5 = p_waiting_for_proposal ?pm4" using rf by blast
  obtain ds where ds: "dels = [] @ ds" "sorted_wrt (<) ds"
    "\<forall>i \<in> set ds. 0 \<le> i \<and> i < 0 + length (p_waiting_for_proposal ?pm4)"
    using rf by blast
  have sorted: "sorted_wrt (<) dels" using ds by simp
  have bound: "i < length (p_waiting_for_proposal ?pm4)" if "i \<in> set dels" for i
    using ds that by simp
  have "sort dels = dels"
    using sorted by (simp add: sorted_sort_id strict_sorted_imp_sorted)
  then have "pop_all (rev (sort dels)) (p_waiting_for_proposal ?pm4)
      = Inr (nths (p_waiting_for_proposal ?pm4) (- set dels))"
    using pop_all_sorted[OF sorted bound] by simp
  then have ws: "ws = nths (p_waiting_for_proposal ?pm4) (- set dels)" using po w5 by simp
  show ?thesis
  proof (rule that[of "items_to_ship pm1" ?pm4 pm5 out2 dels out1])
    show "uid ` fst ` set (items_to_ship pm1)
        \<subseteq> insert (ruid (r_item r)) (uid ` fst ` set (items_to_ship pm))"
      using sf by blast
    show "fst ` set (items_to_ship pm) \<subseteq> fst ` set (items_to_ship pm1)" by (rule kf)
    show "p_waiting_for_proposal ?pm4 = p_waiting_for_proposal pm @ map fst (items_to_ship pm1)"
      using sf sol by simp
    show "p_planets ?pm4 = p_planets pm" using sf sol by simp
    show "start_times ?pm4 u = start_times pm u" if "u \<notin> uid ` fst ` set (items_to_ship pm1)" for u
      using sf sol that by simp
    show "start_times ?pm4 u = Some steps" if "u \<in> uid ` fst ` set (items_to_ship pm1)" for u
      using sol that by simp
    show "proposals ?pm4 u = map_option (\<lambda>ps. ps @ arrivals (r_json r) 0 msg_box u) (proposals pm u)"
      if "u \<notin> uid ` fst ` set (items_to_ship pm1)" for u
    proof -
      have "proposals pm2 u = proposals pm u" using sf sol that by simp
      then show ?thesis using collect_arrivals[OF co, of u] by simp
    qed
    show "resolve steps (r_requeue r) 0 (p_waiting_for_proposal ?pm4) ?pm4 [] [] = Inr (pm5, out2, dels)"
      by (rule re)
    show "sorted_wrt (<) dels" by (rule sorted)
    show "i < length (p_waiting_for_proposal ?pm4)" if "i \<in> set dels" for i
      using that by (rule bound)
    show "pm' = pm5\<lparr>p_waiting_for_proposal := nths (p_waiting_for_proposal ?pm4) (- set dels)\<rparr>"
      using pm' ws by simp
    show "out = out1 @ out2" by (rule out)
    show "\<forall>m \<in> set out1. m_item m \<in> fst ` set (items_to_ship pm1)" by (rule solicit_out[OF so])
    show "set (cfps steps pm ships it d) \<subseteq> set out1"
      if "(it, d) \<in> set (items_to_ship pm)" "ruid (r_item r) \<noteq> uid it" for it d
    proof -
      have "(it, d) \<in> set (items_to_ship pm1)" using sf that by auto
      from solicit_calls[OF so this] have "set (cfps steps pm1 ships it d) \<subseteq> set out1" .
      moreover have "cfps steps pm1 ships it d = cfps steps pm ships it d"
        using spawn_position[OF sp] by (simp add: cfps_def)
      ultimately show ?thesis by simp
    qed
  qed
qed

text \<open>Every item of \<open>items_to_ship\<close> gets a round that starts at this step.\<close>

lemma step_opens_rounds:
  assumes step: "PlanetManager_step steps r ships msg_box pm w = Inr (pm', w', out)"
    and pending: "(it, d) \<in> set (items_to_ship pm)"
  shows "it \<in> set (p_waiting_for_proposal pm') \<and> start_times pm' (uid it) = Some steps
     \<and> (ruid (r_item r) \<noteq> uid it \<longrightarrow> set (cfps steps pm ships it d) \<subseteq> set out)"
proof (rule PlanetManager_step_rounds[OF step])
  fix pend :: "(item \<times> planet) list" and pm4 pm5 out1 out2 dels
  assume keys: "fst ` set (items_to_ship pm) \<subseteq> fst ` set pend"
    and W: "p_waiting_for_proposal pm4 = p_waiting_for_proposal pm @ map fst pend"
    and opened: "\<And>u. u \<in> uid ` fst ` set pend \<Longrightarrow> start_times pm4 u = Some steps"
    and re: "resolve steps (r_requeue r) 0 (p_waiting_for_proposal pm4) pm4 [] [] = Inr (pm5, out2, dels)"
    and pm': "pm' = pm5\<lparr>p_waiting_for_proposal := nths (p_waiting_for_proposal pm4) (- set dels)\<rparr>"
    and out: "out = out1 @ out2"
    and calls: "\<And>it d. (it, d) \<in> set (items_to_ship pm) \<Longrightarrow> ruid (r_item r) \<noteq> uid it \<Longrightarrow>
        set (cfps steps pm ships it d) \<subseteq> set out1"
  have "it \<in> fst ` set pend" using keys pending by force
  then have "it \<in> set (p_waiting_for_proposal pm4)" using W by simp
  then obtain i where i: "i < length (p_waiting_for_proposal pm4)" "p_waiting_for_proposal pm4 ! i = it"
    by (auto simp: in_set_conv_nth)
  have st: "start_times pm4 (uid it) = Some steps"
    using opened \<open>it \<in> fst ` set pend\<close> by blast
  have fresh: "\<not> steps - steps > WAITING_TIME" by (simp add: WAITING_TIME_def)
  from resolve_keeps[OF re st fresh]
  have k: "start_times pm5 (uid it) = Some steps"
    "\<forall>j < length (p_waiting_for_proposal pm4). uid (p_waiting_for_proposal pm4 ! j) = uid it \<longrightarrow>
        0 + j \<in> set dels \<longrightarrow> 0 + j \<in> set []"
    by blast+
  have "i \<notin> set dels" using k(2) i by auto
  then have "it \<in> set (nths (p_waiting_for_proposal pm4) (- set dels))"
    using i by (auto simp: set_nths)
  moreover have "set (cfps steps pm ships it d) \<subseteq> set out" if "ruid (r_item r) \<noteq> uid it"
    using calls[OF pending that] out by auto
  ultimately show ?thesis using k(1) pm' by simp
qed

text \<open>A round that is open when the step begins, for an item that is not queued again.
  While the waiting time has not run out the round is kept with the bids that arrive, and
  no message about the item is sent. At the first step after that it is closed; if it
  has no bid, the item goes back to \<open>items_to_ship\<close> and again no message about it is
  sent.\<close>

lemma step_round:
  assumes step: "PlanetManager_step steps r ships msg_box pm w = Inr (pm', w', out)"
    and at: "i < length (p_waiting_for_proposal pm)" "p_waiting_for_proposal pm ! i = it"
    and started: "start_times pm (uid it) = Some st"
    and not_pending: "uid it \<notin> uid ` fst ` set (items_to_ship pm)"
    and fresh: "ruid (r_item r) \<noteq> uid it"
  shows "if steps - st > WAITING_TIME
         then it \<notin> set (p_waiting_for_proposal pm') \<and> start_times pm' (uid it) = None
              \<and> proposals pm' (uid it) = None
              \<and> (proposals pm (uid it) = Some [] \<longrightarrow> arrivals (r_json r) 0 msg_box (uid it) = [] \<longrightarrow>
                   p_planets pm \<noteq> [] \<and>
                   dict_get (items_to_ship pm') it
                     = Some (p_planets pm ! (r_requeue r i mod length (p_planets pm)))
                   \<and> (\<forall>m \<in> set out. uid (m_item m) \<noteq> uid it))
         else it \<in> set (p_waiting_for_proposal pm') \<and> start_times pm' (uid it) = Some st
              \<and> proposals pm' (uid it)
                  = map_option (\<lambda>ps. ps @ arrivals (r_json r) 0 msg_box (uid it)) (proposals pm (uid it))
              \<and> (\<forall>m \<in> set out. uid (m_item m) \<noteq> uid it)"
proof (rule PlanetManager_step_rounds[OF step])
  fix pend :: "(item \<times> planet) list" and pm4 pm5 out1 out2 dels
  assume keys: "uid ` fst ` set pend \<subseteq> insert (ruid (r_item r)) (uid ` fst ` set (items_to_ship pm))"
    and W: "p_waiting_for_proposal pm4 = p_waiting_for_proposal pm @ map fst pend"
    and planets: "p_planets pm4 = p_planets pm"
    and same: "\<And>u. u \<notin> uid ` fst ` set pend \<Longrightarrow> start_times pm4 u = start_times pm u"
    and bids: "\<And>u. u \<notin> uid ` fst ` set pend \<Longrightarrow>
        proposals pm4 u = map_option (\<lambda>ps. ps @ arrivals (r_json r) 0 msg_box u) (proposals pm u)"
    and re: "resolve steps (r_requeue r) 0 (p_waiting_for_proposal pm4) pm4 [] [] = Inr (pm5, out2, dels)"
    and pm': "pm' = pm5\<lparr>p_waiting_for_proposal := nths (p_waiting_for_proposal pm4) (- set dels)\<rparr>"
    and out: "out = out1 @ out2" and calls: "\<forall>m \<in> set out1. m_item m \<in> fst ` set pend"
  let ?W = "p_waiting_for_proposal pm4"
  have outside: "uid it \<notin> uid ` fst ` set pend"
  proof
    assume "uid it \<in> uid ` fst ` set pend"
    then have "uid it \<in> insert (ruid (r_item r)) (uid ` fst ` set (items_to_ship pm))"
      using keys by blast
    then show False using not_pending fresh by simp
  qed
  have st4: "start_times pm4 (uid it) = Some st" using same[OF outside] started by simp
  have i4: "i < length ?W" "?W ! i = it" using at W by (simp_all add: nth_append)
  have no_call: "\<forall>m \<in> set out1. uid (m_item m) \<noteq> uid it"
  proof
    fix m assume "m \<in> set out1"
    then have "uid (m_item m) \<in> uid ` fst ` set pend" using calls by blast
    then show "uid (m_item m) \<noteq> uid it" using outside by metis
  qed
  from resolve_out[OF re] have answers: "\<forall>m \<in> set out2.
      \<exists>st ps. start_times pm4 (uid (m_item m)) = Some st \<and> steps - st > WAITING_TIME
          \<and> proposals pm4 (uid (m_item m)) = Some ps \<and> ps \<noteq> []"
    by simp
  show ?thesis
  proof (cases "steps - st > WAITING_TIME")
    case False
    from resolve_keeps[OF re st4 False]
    have k: "start_times pm5 (uid it) = Some st" "proposals pm5 (uid it) = proposals pm4 (uid it)"
      "\<forall>j < length ?W. uid (?W ! j) = uid it \<longrightarrow> 0 + j \<in> set dels \<longrightarrow> 0 + j \<in> set []"
      by blast+
    have "i \<notin> set dels" using k(3) i4 by auto
    then have "it \<in> set (nths ?W (- set dels))" using i4 by (auto simp: set_nths)
    moreover have "\<forall>m \<in> set out2. uid (m_item m) \<noteq> uid it"
    proof
      fix m assume "m \<in> set out2"
      then obtain st' where "start_times pm4 (uid (m_item m)) = Some st'" "steps - st' > WAITING_TIME"
        using answers by blast
      then show "uid (m_item m) \<noteq> uid it" using st4 False by auto
    qed
    ultimately show ?thesis using False k(1,2) bids[OF outside] pm' out no_call by auto
  next
    case True
    have gone: "j \<in> set dels" if "j < length ?W" "?W ! j = it" for j
      using resolve_expired[OF re st4 True that(1)] that(2) by simp
    have "it \<notin> set (nths ?W (- set dels))" using gone by (auto simp: set_nths)
    moreover from resolve_expired[OF re st4 True i4(1)] i4(2)
    have e: "start_times pm5 (uid it) = None" "proposals pm5 (uid it) = None"
      "proposals pm4 (uid it) = Some [] \<longrightarrow>
        p_planets pm4 \<noteq> [] \<and>
        dict_get (items_to_ship pm5) it
          = Some (p_planets pm4 ! (r_requeue r i mod length (p_planets pm4)))"
      by simp_all
    moreover have "p_planets pm \<noteq> [] \<and>
        dict_get (items_to_ship pm') it = Some (p_planets pm ! (r_requeue r i mod length (p_planets pm)))
        \<and> (\<forall>m \<in> set out. uid (m_item m) \<noteq> uid it)"
      if "proposals pm (uid it) = Some []" "arrivals (r_json r) 0 msg_box (uid it) = []"
    proof -
      have p4: "proposals pm4 (uid it) = Some []" using bids[OF outside] that by simp
      have "\<forall>m \<in> set out2. uid (m_item m) \<noteq> uid it"
      proof
        fix m assume "m \<in> set out2"
        then obtain ps where "proposals pm4 (uid (m_item m)) = Some ps" "ps \<noteq> []"
          using answers by blast
        then show "uid (m_item m) \<noteq> uid it" using p4 by auto
      qed
      then show ?thesis using e(3) p4 planets pm' out no_call by auto
    qed
    ultimately show ?thesis using True pm' by simp
  qed
qed

lemmas round_eval = planet_eval cfps_def idle_ship_def cfp_cargo_def p1_def p2_def

lemma run_tick0:
  "PlanetManager_step 0 quiet [idle_ship] [] (depot\<lparr>items_to_ship := [(cargo, p1)]\<rparr>)
     \<lparr> items = [cargo], computed_items_nb = 0 \<rparr>
   = Inr (soliciting [], \<lparr> items = [cargo], computed_items_nb = 0 \<rparr>, [cfp_cargo])"
  by (simp add: round_eval)

lemma run_tick3:
  "PlanetManager_step 3 quiet [idle_ship] [] (soliciting [])
     \<lparr> items = [cargo], computed_items_nb = 0 \<rparr>
   = Inr (soliciting [], \<lparr> items = [cargo], computed_items_nb = 0 \<rparr>, [])"
  by (simp add: round_eval)

lemma run_tick3_bid:
  "PlanetManager_step 3 quiet [idle_ship] [bid_of ''ship-a'' (7 / 10)] (soliciting [])
     \<lparr> items = [cargo], computed_items_nb = 0 \<rparr>
   = Inr (soliciting [bid_of ''ship-a'' (7 / 10)], \<lparr> items = [cargo], computed_items_nb = 0 \<rparr>, [])"
  by (simp add: round_eval)

lemma run_tick4:
  "PlanetManager_step 4 quiet [idle_ship] [] (soliciting [])
     \<lparr> items = [cargo], computed_items_nb = 0 \<rparr>
   = Inr (depot\<lparr>items_to_ship := [(cargo, p2)]\<rparr>, \<lparr> items = [cargo], computed_items_nb = 0 \<rparr>, [])"
  by (simp add: round_eval)

lemma run_tick5:
  "PlanetManager_step 5 quiet [idle_ship] [] (depot\<lparr>items_to_ship := [(cargo, p2)]\<rparr>)
     \<lparr> items = [cargo], computed_items_nb = 0 \<rparr>
   = Inr (depot\<lparr> p_waiting_for_proposal := [cargo], start_times := [7 \<mapsto> 5],
                 proposals := [7 \<mapsto> []] \<rparr>,
          \<lparr> items = [cargo], computed_items_nb = 0 \<rparr>,
          [cfp_cargo\<lparr>m_fields := [6, 0], turn := 5\<rparr>])"
  by (simp add: round_eval)

text \<open>
  C2 (counterexample). A round is opened at tick 0. At tick 3, three ticks after the
  call for proposals, the step leaves the round as it is and sends nothing; the round is
  resolved one tick later, at tick 4.
\<close>

theorem round_still_open_three_ticks_after_start:
  "PlanetManager_step 0 quiet [idle_ship] [] (depot\<lparr>items_to_ship := [(cargo, p1)]\<rparr>)
     \<lparr> items = [cargo], computed_items_nb = 0 \<rparr>
   = Inr (soliciting [], \<lparr> items = [cargo], computed_items_nb = 0 \<rparr>, [cfp_cargo])
   \<and> PlanetManager_step 3 quiet [idle_ship] [] (soliciting [])
       \<lparr> items = [cargo], computed_items_nb = 0 \<rparr>
     = Inr (soliciting [], \<lparr> items = [cargo], computed_items_nb = 0 \<rparr>, [])
   \<and> PlanetManager_step 4 quiet [idle_ship] [] (soliciting [])
       \<lparr> items = [cargo], computed_items_nb = 0 \<rparr>
     = Inr (depot\<lparr>items_to_ship := [(cargo, p2)]\<rparr>,
            \<lparr> items = [cargo], computed_items_nb = 0 \<rparr>, [])"
  using run_tick0 run_tick3 run_tick4 by (intro conjI)

text \<open>
  C2 (amended). In a step of the planet that returns: every item of \<open>items_to_ship\<close>
  gets a round whose start is the tick of this step. A round that is open when the step
  begins (its item is not queued again in this step) is kept as long as the tick minus
  the start is at most \<open>WAITING_TIME\<close> = 3: the item stays in the waiting list with its
  start tick, the bids that arrive are appended to its bid list, and no message about
  the item is sent. At the first step where the tick minus the start exceeds 3, that is
  4 ticks after the call for proposals when the planet steps at every tick, the round is
  closed: the item leaves the waiting list and its start tick and bid list are deleted.
\<close>

theorem round_open_until_waiting_time_exceeded:
  assumes "PlanetManager_step steps r ships msg_box pm w = Inr (pm', w', out)"
  shows "(\<forall>it d. (it, d) \<in> set (items_to_ship pm) \<longrightarrow>
            it \<in> set (p_waiting_for_proposal pm') \<and> start_times pm' (uid it) = Some steps)
     \<and> (\<forall>it st. it \<in> set (p_waiting_for_proposal pm) \<and> start_times pm (uid it) = Some st
            \<and> uid it \<notin> uid ` fst ` set (items_to_ship pm) \<and> ruid (r_item r) \<noteq> uid it \<longrightarrow>
          (if steps - st \<le> WAITING_TIME
           then it \<in> set (p_waiting_for_proposal pm') \<and> start_times pm' (uid it) = Some st
                \<and> proposals pm' (uid it)
                    = map_option (\<lambda>ps. ps @ arrivals (r_json r) 0 msg_box (uid it))
                        (proposals pm (uid it))
                \<and> (\<forall>m \<in> set out. uid (m_item m) \<noteq> uid it)
           else it \<notin> set (p_waiting_for_proposal pm') \<and> start_times pm' (uid it) = None
                \<and> proposals pm' (uid it) = None))"
proof (intro conjI allI impI)
  fix it d assume "(it, d) \<in> set (items_to_ship pm)"
  from step_opens_rounds[OF assms this]
  show "it \<in> set (p_waiting_for_proposal pm')" "start_times pm' (uid it) = Some steps"
    by simp_all
next
  fix it st
  assume h: "it \<in> set (p_waiting_for_proposal pm) \<and> start_times pm (uid it) = Some st
            \<and> uid it \<notin> uid ` fst ` set (items_to_ship pm) \<and> ruid (r_item r) \<noteq> uid it"
  then obtain i where i: "i < length (p_waiting_for_proposal pm)" "p_waiting_for_proposal pm ! i = it"
    by (auto simp: in_set_conv_nth)
  from h have st: "start_times pm (uid it) = Some st"
    and np: "uid it \<notin> uid ` fst ` set (items_to_ship pm)" and fr: "ruid (r_item r) \<noteq> uid it"
    by simp_all
  from step_round[OF assms i st np fr]
  show "if steps - st \<le> WAITING_TIME
           then it \<in> set (p_waiting_for_proposal pm') \<and> start_times pm' (uid it) = Some st
                \<and> proposals pm' (uid it)
                    = map_option (\<lambda>ps. ps @ arrivals (r_json r) 0 msg_box (uid it))
                        (proposals pm (uid it))
                \<and> (\<forall>m \<in> set out. uid (m_item m) \<noteq> uid it)
           else it \<notin> set (p_waiting_for_proposal pm') \<and> start_times pm' (uid it) = None
                \<and> proposals pm' (uid it) = None"
    by (cases "steps - st \<le> WAITING_TIME") (simp_all add: not_le)
qed

theorem round_open_until_waiting_time_exceeded_witness:
  "PlanetManager_step 3 quiet [idle_ship] [bid_of ''ship-a'' (7 / 10)] (soliciting [])
     \<lparr> items = [cargo], computed_items_nb = 0 \<rparr>
   = Inr (soliciting [bid_of ''ship-a'' (7 / 10)], \<lparr> items = [cargo], computed_items_nb = 0 \<rparr>, [])
   \<and> cargo \<in> set (p_waiting_for_proposal (soliciting []))
   \<and> start_times (soliciting []) (uid cargo) = Some 0
   \<and> uid cargo \<notin> uid ` fst ` set (items_to_ship (soliciting []))
   \<and> ruid (r_item quiet) \<noteq> uid cargo
   \<and> 3 - 0 \<le> WAITING_TIME
   \<and> cargo \<in> set (p_waiting_for_proposal (soliciting [bid_of ''ship-a'' (7 / 10)]))
   \<and> start_times (soliciting [bid_of ''ship-a'' (7 / 10)]) (uid cargo) = Some 0
   \<and> proposals (soliciting [bid_of ''ship-a'' (7 / 10)]) (uid cargo)
       = Some ([] @ arrivals (r_json quiet) 0 [bid_of ''ship-a'' (7 / 10)] (uid cargo))
   \<and> PlanetManager_step 4 quiet [idle_ship] [] (soliciting [])
       \<lparr> items = [cargo], computed_items_nb = 0 \<rparr>
     = Inr (depot\<lparr>items_to_ship := [(cargo, p2)]\<rparr>,
            \<lparr> items = [cargo], computed_items_nb = 0 \<rparr>, [])
   \<and> \<not> 4 - 0 \<le> WAITING_TIME
   \<and> cargo \<notin> set (p_waiting_for_proposal (depot\<lparr>items_to_ship := [(cargo, p2)]\<rparr>))
   \<and> start_times (depot\<lparr>items_to_ship := [(cargo, p2)]\<rparr>) (uid cargo) = None
   \<and> proposals (depot\<lparr>items_to_ship := [(cargo, p2)]\<rparr>) (uid cargo) = None"
proof -
  let ?bid = "bid_of ''ship-a'' (7 / 10)"
  have a: "cargo \<in> set (p_waiting_for_proposal (soliciting []))"
    "start_times (soliciting []) (uid cargo) = Some 0"
    "uid cargo \<notin> uid ` fst ` set (items_to_ship (soliciting []))"
    "ruid (r_item quiet) \<noteq> uid cargo"
    by (simp_all add: soliciting_def depot_def cargo_def quiet_def spare_rand_def)
  have t3: "3 - 0 \<le> WAITING_TIME" and t4: "\<not> 4 - 0 \<le> WAITING_TIME"
    by (simp_all add: WAITING_TIME_def)
  have p: "proposals (soliciting []) (uid cargo) = Some []"
    by (simp add: soliciting_def cargo_def)
  have h: "cargo \<in> set (p_waiting_for_proposal (soliciting []))
      \<and> start_times (soliciting []) (uid cargo) = Some 0
      \<and> uid cargo \<notin> uid ` fst ` set (items_to_ship (soliciting []))
      \<and> ruid (r_item quiet) \<noteq> uid cargo"
    using a by (intro conjI)
  note k3 = round_open_until_waiting_time_exceeded[OF run_tick3_bid, THEN conjunct2, THEN spec,
      THEN spec, THEN mp, OF h]
  from k3 have kept: "cargo \<in> set (p_waiting_for_proposal (soliciting [?bid]))"
    "start_times (soliciting [?bid]) (uid cargo) = Some 0"
    "proposals (soliciting [?bid]) (uid cargo)
       = Some ([] @ arrivals (r_json quiet) 0 [?bid] (uid cargo))"
    using t3 p by simp_all
  let ?pm = "depot\<lparr>items_to_ship := [(cargo, p2)]\<rparr>"
  note k4 = round_open_until_waiting_time_exceeded[OF run_tick4, THEN conjunct2, THEN spec,
      THEN spec, THEN mp, OF h]
  from k4 have closed: "cargo \<notin> set (p_waiting_for_proposal ?pm)"
    "start_times ?pm (uid cargo) = None" "proposals ?pm (uid cargo) = None"
    using t4 by simp_all
  show ?thesis
    using run_tick3_bid a t3 kept run_tick4 t4 closed by (intro conjI)
qed

text \<open>\<open>random.choice\<close> can return every element of the list.\<close>

lemma py_choice_any: "d \<in> set xs \<Longrightarrow> \<exists>k. py_choice k xs = Inr d"
proof -
  assume "d \<in> set xs"
  then obtain k where "k < length xs" "xs ! k = d" by (auto simp: in_set_conv_nth)
  then have "py_choice k xs = Inr d" by (auto simp: py_choice_def)
  then show ?thesis ..
qed

text \<open>
  C6. A round whose waiting time has run out and that has no bid, neither collected
  before nor arriving in this step: the step puts the item back in \<open>items_to_ship\<close>
  with the planet that \<open>random.choice\<close> picks in \<open>self.planets\<close> (any planet of the list
  can be picked, whatever the destination was before), closes the round and sends no
  message about the item. The next step of the planet opens a new round for the item and
  sends the calls for proposals with the new destination.
\<close>

theorem empty_round_requeued:
  assumes step: "PlanetManager_step steps r ships msg_box pm w = Inr (pm', w', out)"
    and at: "i < length (p_waiting_for_proposal pm)" "p_waiting_for_proposal pm ! i = it"
    and started: "start_times pm (uid it) = Some st" and expired: "steps - st > WAITING_TIME"
    and no_bids: "proposals pm (uid it) = Some []"
    and no_new: "arrivals (r_json r) 0 msg_box (uid it) = []"
    and not_pending: "uid it \<notin> uid ` fst ` set (items_to_ship pm)"
    and fresh: "ruid (r_item r) \<noteq> uid it"
  shows "\<exists>d. py_choice (r_requeue r i) (p_planets pm) = Inr d
      \<and> dict_get (items_to_ship pm') it = Some d
      \<and> it \<notin> set (p_waiting_for_proposal pm')
      \<and> start_times pm' (uid it) = None \<and> proposals pm' (uid it) = None
      \<and> (\<forall>m \<in> set out. uid (m_item m) \<noteq> uid it)
      \<and> (\<forall>e \<in> set (p_planets pm). \<exists>k. py_choice k (p_planets pm) = Inr e)
      \<and> (\<forall>steps2 r2 ships2 box2 w2 pm2 w2' out2.
            PlanetManager_step steps2 r2 ships2 box2 pm' w2 = Inr (pm2, w2', out2)
            \<and> ruid (r_item r2) \<noteq> uid it \<longrightarrow>
            (\<exists>j. uid j = uid it \<and> j \<in> set (p_waiting_for_proposal pm2)
                 \<and> start_times pm2 (uid it) = Some steps2
                 \<and> set (cfps steps2 pm' ships2 j d) \<subseteq> set out2))"
proof -
  let ?d = "p_planets pm ! (r_requeue r i mod length (p_planets pm))"
  from step_round[OF step at started not_pending fresh] expired no_bids no_new
  have r: "it \<notin> set (p_waiting_for_proposal pm')" "start_times pm' (uid it) = None"
    "proposals pm' (uid it) = None" "p_planets pm \<noteq> []"
    "dict_get (items_to_ship pm') it = Some ?d" "\<forall>m \<in> set out. uid (m_item m) \<noteq> uid it"
    by simp_all
  have c: "py_choice (r_requeue r i) (p_planets pm) = Inr ?d"
    using r(4) by (simp add: py_choice_def)
  have any: "\<forall>e \<in> set (p_planets pm). \<exists>k. py_choice k (p_planets pm) = Inr e"
    by (intro ballI py_choice_any)
  from dict_get_Some[OF r(5)] obtain j where j: "(j, ?d) \<in> set (items_to_ship pm')" "uid j = uid it"
    by blast
  have next_round: "\<exists>j. uid j = uid it \<and> j \<in> set (p_waiting_for_proposal pm2)
                 \<and> start_times pm2 (uid it) = Some steps2
                 \<and> set (cfps steps2 pm' ships2 j ?d) \<subseteq> set out2"
    if "PlanetManager_step steps2 r2 ships2 box2 pm' w2 = Inr (pm2, w2', out2)
            \<and> ruid (r_item r2) \<noteq> uid it"
    for steps2 r2 ships2 box2 w2 pm2 w2' out2
  proof -
    from that have s2: "PlanetManager_step steps2 r2 ships2 box2 pm' w2 = Inr (pm2, w2', out2)"
      and f2: "ruid (r_item r2) \<noteq> uid j" using j(2) by simp_all
    from step_opens_rounds[OF s2 j(1)] f2 j(2)
    have "uid j = uid it \<and> j \<in> set (p_waiting_for_proposal pm2)
        \<and> start_times pm2 (uid it) = Some steps2
        \<and> set (cfps steps2 pm' ships2 j ?d) \<subseteq> set out2"
      by simp
    then show ?thesis by (rule exI)
  qed
  show ?thesis
  proof (intro exI[of _ ?d] conjI)
    show "py_choice (r_requeue r i) (p_planets pm) = Inr ?d" by (rule c)
    show "dict_get (items_to_ship pm') it = Some ?d" by (rule r(5))
    show "it \<notin> set (p_waiting_for_proposal pm')" by (rule r(1))
    show "start_times pm' (uid it) = None" by (rule r(2))
    show "proposals pm' (uid it) = None" by (rule r(3))
    show "\<forall>m \<in> set out. uid (m_item m) \<noteq> uid it" by (rule r(6))
    show "\<forall>e \<in> set (p_planets pm). \<exists>k. py_choice k (p_planets pm) = Inr e" by (rule any)
    show "\<forall>steps2 r2 ships2 box2 w2 pm2 w2' out2.
            PlanetManager_step steps2 r2 ships2 box2 pm' w2 = Inr (pm2, w2', out2)
            \<and> ruid (r_item r2) \<noteq> uid it \<longrightarrow>
            (\<exists>j. uid j = uid it \<and> j \<in> set (p_waiting_for_proposal pm2)
                 \<and> start_times pm2 (uid it) = Some steps2
                 \<and> set (cfps steps2 pm' ships2 j ?d) \<subseteq> set out2)"
      using next_round by blast
  qed
qed

theorem empty_round_requeued_witness:
  "PlanetManager_step 4 quiet [idle_ship] [] (soliciting [])
     \<lparr> items = [cargo], computed_items_nb = 0 \<rparr>
   = Inr (depot\<lparr>items_to_ship := [(cargo, p2)]\<rparr>,
          \<lparr> items = [cargo], computed_items_nb = 0 \<rparr>, [])
   \<and> 0 < length (p_waiting_for_proposal (soliciting []))
   \<and> p_waiting_for_proposal (soliciting []) ! 0 = cargo
   \<and> start_times (soliciting []) (uid cargo) = Some 0 \<and> 4 - 0 > WAITING_TIME
   \<and> proposals (soliciting []) (uid cargo) = Some []
   \<and> arrivals (r_json quiet) 0 [] (uid cargo) = []
   \<and> uid cargo \<notin> uid ` fst ` set (items_to_ship (soliciting []))
   \<and> ruid (r_item quiet) \<noteq> uid cargo
   \<and> py_choice (r_requeue quiet 0) (p_planets (soliciting [])) = Inr p2
   \<and> dict_get (items_to_ship (depot\<lparr>items_to_ship := [(cargo, p2)]\<rparr>)) cargo = Some p2
   \<and> PlanetManager_step 5 quiet [idle_ship] [] (depot\<lparr>items_to_ship := [(cargo, p2)]\<rparr>)
       \<lparr> items = [cargo], computed_items_nb = 0 \<rparr>
     = Inr (depot\<lparr> p_waiting_for_proposal := [cargo], start_times := [7 \<mapsto> 5],
                   proposals := [7 \<mapsto> []] \<rparr>,
            \<lparr> items = [cargo], computed_items_nb = 0 \<rparr>,
            [cfp_cargo\<lparr>m_fields := [6, 0], turn := 5\<rparr>])"
proof -
  let ?pm = "depot\<lparr>items_to_ship := [(cargo, p2)]\<rparr>"
  have a: "0 < length (p_waiting_for_proposal (soliciting []))"
    "p_waiting_for_proposal (soliciting []) ! 0 = cargo"
    "start_times (soliciting []) (uid cargo) = Some 0" "4 - 0 > WAITING_TIME"
    "proposals (soliciting []) (uid cargo) = Some []"
    "arrivals (r_json quiet) 0 [] (uid cargo) = []"
    "uid cargo \<notin> uid ` fst ` set (items_to_ship (soliciting []))"
    "ruid (r_item quiet) \<noteq> uid cargo"
    by (simp_all add: soliciting_def depot_def cargo_def quiet_def spare_rand_def WAITING_TIME_def)
  from empty_round_requeued[OF run_tick4 a]
  obtain d where d: "py_choice (r_requeue quiet 0) (p_planets (soliciting [])) = Inr d"
    "dict_get (items_to_ship ?pm) cargo = Some d"
    by (elim exE conjE)
  have "py_choice (r_requeue quiet 0) (p_planets (soliciting [])) = Inr p2"
    by (simp add: py_choice_def quiet_def soliciting_def depot_def)
  then have "d = p2" using d(1) by simp
  then have b: "py_choice (r_requeue quiet 0) (p_planets (soliciting [])) = Inr p2"
    "dict_get (items_to_ship ?pm) cargo = Some p2"
    using d by simp_all
  show ?thesis using run_tick4 a b run_tick5 by (intro conjI)
qed

end
